theory Spec2Isabelle
  imports Complex_Main "HOL-Library.Sublist"
begin

section \<open>Errors raised by the service\<close>

text \<open>
  Every \<^verbatim>\<open>throw new Error(...)\<close> of the sources is one constructor; \<open>TypeError\<close> is the
  runtime's own error (calling a non-function, a malformed argument of \<^verbatim>\<open>new URL\<close>), and
  \<open>External\<close> stands for an error handed over by a collaborator (file system, HTTP
  client, transcoding tool).
\<close>

datatype error =
    InvalidUrlFormat
  | InternalAddress
  | SystemDirectory
  | UrlUnreachable
  | ProbeTimeout
  | DurationUnavailable
  | DurationUnparsable
  | SampleDownloadFailed
  | ThumbnailTooSmall
  | TypeError
  | External string

section \<open>Strings\<close>

text \<open>\<^verbatim>\<open>String.prototype.toLowerCase\<close> on the ASCII range, which is all a host name holds.\<close>

definition lower_char :: "char \<Rightarrow> char" where
  "lower_char c =
     (let n = (of_char c :: nat) in if 65 \<le> n \<and> n \<le> 90 then char_of (n + 32) else c)"

definition toLowerCase :: "string \<Rightarrow> string" where
  "toLowerCase s = map lower_char s"

text \<open>\<^verbatim>\<open>String.prototype.includes\<close>: the pattern occurs at some offset.\<close>

fun str_includes :: "string \<Rightarrow> string \<Rightarrow> bool" where
  "str_includes [] p = (p = [])"
| "str_includes (c # cs) p = (prefix p (c # cs) \<or> str_includes cs p)"

text \<open>\<^verbatim>\<open>String.prototype.startsWith\<close>.\<close>

definition startsWith :: "string \<Rightarrow> string \<Rightarrow> bool" where
  "startsWith s p = prefix p s"

section \<open>URL validation (VideoService.validateUrl)\<close>

text \<open>
  The two library calls of \<^verbatim>\<open>validateUrl\<close> are not code of the repository and are taken
  as parameters: \<open>lib_isURL\<close> is \<^verbatim>\<open>validator.isURL(url, {protocols: ['http','https'],
  require_protocol: true})\<close>, and \<open>lib_hostname\<close> is \<^verbatim>\<open>new URL(url).hostname\<close>, \<open>None\<close>
  when the constructor throws.
\<close>

record url_lib =
  lib_isURL :: "string \<Rightarrow> bool"
  lib_hostname :: "string \<Rightarrow> string option"

definition blockedPatterns :: "string list" where
  "blockedPatterns =
     [''localhost'', ''127.0.0.1'', ''0.0.0.0'', ''::1'', ''169.254'', ''192.168'', ''10.'', ''172.16'']"

text \<open>The \<^verbatim>\<open>for (const pattern of blockedPatterns)\<close> loop: true when some pattern made it throw.\<close>

fun matchBlocked :: "string \<Rightarrow> string list \<Rightarrow> bool" where
  "matchBlocked hostname [] = False"
| "matchBlocked hostname (pattern # rest) =
     (if str_includes hostname pattern then True else matchBlocked hostname rest)"

definition validateUrl :: "url_lib \<Rightarrow> string \<Rightarrow> error + bool" where
  "validateUrl L url =
     (if \<not> lib_isURL L url then Inl InvalidUrlFormat
      else case lib_hostname L url of
        None \<Rightarrow> Inl TypeError
      | Some h \<Rightarrow>
          (let hostname = toLowerCase h in
           if matchBlocked hostname blockedPatterns then Inl InternalAddress else Inr True))"

text \<open>A small resolver table for worked examples: three URLs and the host names they parse to.\<close>

definition demo_lib :: url_lib where
  "demo_lib =
     \<lparr>lib_isURL = (\<lambda>url. True),
      lib_hostname = (\<lambda>url.
         if url = ''http://cdn10.example.com/a.mp4'' then Some ''cdn10.example.com''
         else if url = ''http://172.17.0.1/a.mp4'' then Some ''172.17.0.1''
         else if url = ''http://192.168.1.5/a.mp4'' then Some ''192.168.1.5''
         else if url = ''http://127.0.0.1/a.mp4'' then Some ''127.0.0.1''
         else if url = ''http://media.example.org/a.mp4'' then Some ''media.example.org''
         else None)\<rparr>"

section \<open>Extraction offset (VideoService.generateThumbnail, the seekTime switch)\<close>

text \<open>
  The \<^verbatim>\<open>position\<close> option is a JavaScript value: a string, a number, or absent (the
  destructuring default then makes it \<^verbatim>\<open>'middle'\<close>). Durations and offsets are seconds,
  taken as real numbers; \<open>rnd\<close> is the value of \<^verbatim>\<open>Math.random()\<close>, a number in \<open>[0, 1)\<close>.
\<close>

datatype position = PosString string | PosNumber real | PosUndefined

definition seekTime :: "position \<Rightarrow> real \<Rightarrow> real \<Rightarrow> real" where
  "seekTime position duration rnd =
     (case position of
        PosString s \<Rightarrow>
          if s = ''start'' then min 5 (duration * 0.05)
          else if s = ''middle'' then duration / 2
          else if s = ''end'' then duration * 0.95
          else if s = ''auto'' then duration * (0.1 + rnd * 0.8)
          else duration / 2
      | PosNumber n \<Rightarrow> n
      | PosUndefined \<Rightarrow> duration / 2)"

section \<open>Duration cache (CacheService)\<close>

text \<open>
  The cache is a \<^verbatim>\<open>Map\<close> from keys to values with a dirty flag. \<^verbatim>\<open>get\<close>, \<^verbatim>\<open>set\<close> and
  \<^verbatim>\<open>has\<close> never look at a value and are given for any type of values; the service
  stores the finite numbers its guard lets through. \<^verbatim>\<open>save\<close> and \<^verbatim>\<open>load\<close> go through
  JSON and are given on JavaScript values: a finite number, \<^verbatim>\<open>NaN\<close>, the two infinities,
  or \<^verbatim>\<open>null\<close>.
\<close>

datatype jsvalue = Number real | NotANumber | Infinity | NegInfinity | Null

text \<open>
  A member of a JSON object is a number or \<^verbatim>\<open>null\<close>. \<^verbatim>\<open>JSON.stringify\<close> writes a finite
  number as itself and \<^verbatim>\<open>NaN\<close> and the infinities as \<^verbatim>\<open>null\<close>; \<^verbatim>\<open>JSON.parse\<close> reads back
  what is written.
\<close>

datatype json = JsonNumber real | JsonNull

fun stringify_value :: "jsvalue \<Rightarrow> json" where
  "stringify_value (Number r) = JsonNumber r"
| "stringify_value NotANumber = JsonNull"
| "stringify_value Infinity = JsonNull"
| "stringify_value NegInfinity = JsonNull"
| "stringify_value Null = JsonNull"

fun parse_value :: "json \<Rightarrow> jsvalue" where
  "parse_value (JsonNumber r) = Number r"
| "parse_value JsonNull = Null"

record 'v cache_service =
  cache :: "string \<rightharpoonup> 'v"
  isDirty :: bool

text \<open>
  The cache file is absent (\<^verbatim>\<open>ENOENT\<close>), unparsable, or holds a JSON object, given by
  its members; \<open>writable\<close> tells whether \<^verbatim>\<open>fs.writeFile\<close> succeeds.
\<close>

datatype file_content = Missing | Malformed | JsonObject "string \<rightharpoonup> json"

record cache_file =
  content :: file_content
  writable :: bool

definition new_CacheService :: "'v cache_service" where
  "new_CacheService = \<lparr>cache = Map.empty, isDirty = False\<rparr>"

text \<open>
  \<^verbatim>\<open>load\<close>: every member of the parsed object is put into the map; a missing or
  unparsable file leaves the instance as it is.
\<close>

definition load :: "jsvalue cache_service \<Rightarrow> cache_file \<Rightarrow> jsvalue cache_service" where
  "load cs f =
     (case content f of
        JsonObject cacheData \<Rightarrow>
          cs\<lparr>cache := cache cs ++ (map_option parse_value \<circ> cacheData), isDirty := False\<rparr>
      | Missing \<Rightarrow> cs
      | Malformed \<Rightarrow> cs)"

text \<open>
  \<^verbatim>\<open>save\<close>: nothing to do when the cache is clean; else
  \<^verbatim>\<open>JSON.stringify(Object.fromEntries(this.cache))\<close> is written, and a failed write is
  reported by the result \<open>False\<close>.
\<close>

definition save ::
  "jsvalue cache_service \<Rightarrow> cache_file \<Rightarrow> bool \<times> jsvalue cache_service \<times> cache_file" where
  "save cs f =
     (if \<not> isDirty cs then (True, cs, f)
      else if writable f then
        (True, cs\<lparr>isDirty := False\<rparr>,
         f\<lparr>content := JsonObject (map_option stringify_value \<circ> cache cs)\<rparr>)
      else (False, cs, f))"

definition cache_get :: "string \<Rightarrow> 'v cache_service \<Rightarrow> 'v option" where
  "cache_get key cs = cache cs key"

definition cache_set :: "string \<Rightarrow> 'v \<Rightarrow> 'v cache_service \<Rightarrow> 'v cache_service" where
  "cache_set key v cs = cs\<lparr>cache := (cache cs)(key \<mapsto> v), isDirty := True\<rparr>"

definition cache_has :: "string \<Rightarrow> 'v cache_service \<Rightarrow> bool" where
  "cache_has key cs = (cache cs key \<noteq> None)"

text \<open>A cache file that does not exist yet and can be written.\<close>

definition fresh_file :: cache_file where
  "fresh_file = \<lparr>content = Missing, writable = True\<rparr>"

section \<open>Probing a duration (getVideoDuration)\<close>

text \<open>
  What a probe yields is a JavaScript number or \<^verbatim>\<open>NaN\<close> (\<^verbatim>\<open>parseFloat\<close> of the tool's
  output in server.js, \<^verbatim>\<open>metadata.format.duration\<close> in the service; an absent or
  non-numeric value fails the same guard as \<^verbatim>\<open>NaN\<close>). The guard of both versions is
  \<^verbatim>\<open>!duration || isNaN(duration)\<close>.
\<close>

datatype jsnum = Num real | NaN

definition rejected_duration :: "jsnum \<Rightarrow> bool" where
  "rejected_duration duration = (case duration of NaN \<Rightarrow> True | Num r \<Rightarrow> r = 0)"

text \<open>Calls that leave the process, in the order they are made.\<close>

datatype effect =
    FsAccess string
  | FsReadFile string
  | HttpHead string
  | Probe string
  | DownloadSample string
  | ProbeSample string
  | Render string
  | WriteNfo string
  | Unlink string

text \<open>
  The external tools of server.js: \<open>ffprobe_url\<close> is the direct \<^verbatim>\<open>ffprobe\<close> of the URL
  (\<open>Inl\<close> when \<^verbatim>\<open>execPromise\<close> throws: non-zero exit or the 10 s timeout), \<open>curl_sample\<close>
  the byte-range download of the first 5 MB, \<open>ffprobe_sample\<close> the probe of the sample.
\<close>

record probe_tools =
  ffprobe_url :: "string \<Rightarrow> error + jsnum"
  curl_sample :: "string \<Rightarrow> bool"
  ffprobe_sample :: "string \<Rightarrow> error + jsnum"

definition sample_path :: "string \<Rightarrow> string" where
  "sample_path baseName = ''/tmp/emby_thumb_temp/'' @ baseName @ ''_sample.mp4''"

text \<open>The tail of server.js's \<^verbatim>\<open>getVideoDuration\<close>: the guard, then the store into the cache.\<close>

definition finish_duration ::
  "string \<Rightarrow> jsnum \<Rightarrow> (string \<rightharpoonup> real) \<Rightarrow> effect list
     \<Rightarrow> (error + real) \<times> (string \<rightharpoonup> real) \<times> effect list" where
  "finish_duration cacheKey duration videoCache effs =
     (case duration of
        NaN \<Rightarrow> (Inl DurationUnavailable, videoCache, effs)
      | Num r \<Rightarrow>
          if r = 0 then (Inl DurationUnavailable, videoCache, effs)
          else (Inr r, videoCache(cacheKey \<mapsto> r), effs))"

definition getVideoDuration_server ::
  "probe_tools \<Rightarrow> (string \<rightharpoonup> real) \<Rightarrow> string \<Rightarrow> string
     \<Rightarrow> (error + real) \<times> (string \<rightharpoonup> real) \<times> effect list" where
  "getVideoDuration_server T videoCache videoUrl baseName =
     (let cacheKey = ''duration:'' @ videoUrl in
      case videoCache cacheKey of
        Some d \<Rightarrow> (Inr d, videoCache, [])
      | None \<Rightarrow>
          (case ffprobe_url T videoUrl of
             Inr duration \<Rightarrow> finish_duration cacheKey duration videoCache [Probe videoUrl]
           | Inl err \<Rightarrow>
               (let tmpVideo = sample_path baseName in
                if \<not> curl_sample T videoUrl then
                  (Inl SampleDownloadFailed, videoCache,
                   [Probe videoUrl, DownloadSample videoUrl, Unlink tmpVideo])
                else case ffprobe_sample T videoUrl of
                  Inl err2 \<Rightarrow>
                    (Inl SampleDownloadFailed, videoCache,
                     [Probe videoUrl, DownloadSample videoUrl, ProbeSample tmpVideo, Unlink tmpVideo])
                | Inr duration \<Rightarrow>
                    finish_duration cacheKey duration videoCache
                      [Probe videoUrl, DownloadSample videoUrl, ProbeSample tmpVideo, Unlink tmpVideo])))"

section \<open>Task queue (TaskQueue)\<close>

text \<open>
  A task handed to \<^verbatim>\<open>add\<close> is a JavaScript value: \<open>Fn j\<close> is a function that starts job
  \<open>j\<close> and returns its promise, \<open>Wrapper j p\<close> is the object \<^verbatim>\<open>{ task, priority }\<close> that
  \<^verbatim>\<open>enqueue\<close> pushes onto \<^verbatim>\<open>this.queue\<close> (calling it throws \<^verbatim>\<open>TypeError\<close>).

  Each invocation of the async method \<^verbatim>\<open>add\<close> is a coroutine of the event loop. Its phase is
  \<open>Polling\<close> while it sleeps in the \<^verbatim>\<open>while (this.running >= this.concurrency)\<close> loop,
  \<open>Awaiting j\<close> while it awaits the promise of job \<open>j\<close>, and \<open>Fulfilled v\<close> or
  \<open>Rejected e\<close> once the promise it returned has settled. The list \<open>calls\<close> holds the
  invocations in the order they were made; \<open>history\<close> records every write to
  \<^verbatim>\<open>this.running\<close> with the value it had before the write.
\<close>

datatype task = Fn nat | Wrapper nat int

datatype 'v outcome = Returned 'v | Threw error

datatype 'v phase = Polling | Awaiting nat | Fulfilled 'v | Rejected error

datatype qevent = SlotTaken int | SlotFreed int

record 'v task_queue =
  concurrency :: int
  running :: int
  queue :: "(nat \<times> int) list"
  stats_total :: nat
  stats_completed :: nat
  stats_failed :: nat
  stats_active :: int
  paused :: bool
  calls :: "(task \<times> 'v phase) list"
  history :: "qevent list"

definition new_TaskQueue :: "int \<Rightarrow> 'v task_queue" where
  "new_TaskQueue c =
     \<lparr>concurrency = c, running = 0, queue = [], stats_total = 0, stats_completed = 0,
      stats_failed = 0, stats_active = 0, paused = False, calls = [], history = []\<rparr>"

definition settled :: "'v outcome \<Rightarrow> 'v phase" where
  "settled out = (case out of Returned v \<Rightarrow> Fulfilled v | Threw e \<Rightarrow> Rejected e)"

text \<open>
  \<open>add\<close> is the entry of the method (the statistics, then the loop); \<open>add_loop i t\<close> is
  one evaluation of the loop condition by call \<open>i\<close> and, when a slot is free, everything
  up to \<^verbatim>\<open>await task()\<close>; \<open>add_settle i t out\<close> is what follows the \<^verbatim>\<open>await\<close> when the task
  settled with \<open>out\<close>: the \<^verbatim>\<open>try\<close>/\<^verbatim>\<open>catch\<close> branch, the \<^verbatim>\<open>finally\<close> block with its call
  of \<^verbatim>\<open>processNext\<close>, and the settlement of the call's own promise. A wrapper object
  throws at the call itself, so for it the whole method runs without suspension.
\<close>

function add :: "task \<Rightarrow> 'v task_queue \<Rightarrow> 'v task_queue"
  and add_loop :: "nat \<Rightarrow> task \<Rightarrow> 'v task_queue \<Rightarrow> 'v task_queue"
  and add_settle :: "nat \<Rightarrow> task \<Rightarrow> 'v outcome \<Rightarrow> 'v task_queue \<Rightarrow> 'v task_queue"
  and processNext :: "'v task_queue \<Rightarrow> 'v task_queue"
where
  "add t q =
     add_loop (length (calls q)) t
       (q\<lparr>stats_total := stats_total q + 1, calls := calls q @ [(t, Polling)]\<rparr>)"
| "add_loop i t q =
     (if running q \<ge> concurrency q then q
      else
        (let q1 = q\<lparr>running := running q + 1, history := history q @ [SlotTaken (running q)]\<rparr>;
             q2 = q1\<lparr>stats_active := running q1\<rparr>
         in case t of
              Fn j \<Rightarrow> q2\<lparr>calls := (calls q2)[i := (t, Awaiting j)]\<rparr>
            | Wrapper j p \<Rightarrow> add_settle i t (Threw TypeError) q2))"
| "add_settle i t out q =
     (let q1 = (case out of
                  Returned v \<Rightarrow> q\<lparr>stats_completed := stats_completed q + 1\<rparr>
                | Threw e \<Rightarrow> q\<lparr>stats_failed := stats_failed q + 1\<rparr>);
          q2 = q1\<lparr>running := running q1 - 1, history := history q1 @ [SlotFreed (running q1)]\<rparr>;
          q3 = q2\<lparr>stats_active := running q2\<rparr>;
          q4 = processNext q3
      in q4\<lparr>calls := (calls q4)[i := (t, settled out)]\<rparr>)"
| "processNext q =
     (case queue q of
        [] \<Rightarrow> q
      | (j, p) # rest \<Rightarrow>
          if running q < concurrency q then add (Wrapper j p) (q\<lparr>queue := rest\<rparr>) else q)"
  by pat_completeness auto
termination
  by (relation "measure (\<lambda>x. case x of
        Inl (Inl (t, q)) \<Rightarrow> 4 * length (queue q) + 3
      | Inl (Inr (i, t, q)) \<Rightarrow> 4 * length (queue q) + 2
      | Inr (Inl (i, t, out, q)) \<Rightarrow> 4 * length (queue q) + 1
      | Inr (Inr q) \<Rightarrow> 4 * length (queue q))")
     (auto split: outcome.splits)

declare add.simps [simp del] add_loop.simps [simp del] add_settle.simps [simp del]
  processNext.simps [simp del]

text \<open>
  \<^verbatim>\<open>enqueue\<close>: push the wrapper, sort by descending priority (\<^verbatim>\<open>Array.prototype.sort\<close> is
  stable), then \<^verbatim>\<open>processNext\<close>.
\<close>

definition enqueue :: "nat \<Rightarrow> int \<Rightarrow> 'v task_queue \<Rightarrow> 'v task_queue" where
  "enqueue j p q =
     processNext (q\<lparr>queue := sort_key (\<lambda>item. - snd item) (queue q @ [(j, p)])\<rparr>)"

text \<open>
  What can happen to a queue, one atomic block of the event loop each: a caller invokes
  \<^verbatim>\<open>add\<close> with a function or \<^verbatim>\<open>enqueue\<close>, the 100 ms timer of a polling call fires, the
  promise a call awaits settles, or a caller invokes \<^verbatim>\<open>pause\<close>, \<^verbatim>\<open>resume\<close> or \<^verbatim>\<open>clear\<close>.
  A timer or settlement for a call that is not in the matching phase cannot occur and
  leaves the state as it is.
\<close>

datatype 'v action =
    Add nat
  | Enqueue nat int
  | Wake nat
  | Settle nat "'v outcome"
  | Pause
  | Resume
  | Clear

fun is_awaiting :: "'v phase \<Rightarrow> bool" where
  "is_awaiting (Awaiting j) = True"
| "is_awaiting _ = False"

fun step :: "'v action \<Rightarrow> 'v task_queue \<Rightarrow> 'v task_queue" where
  "step (Add j) q = add (Fn j) q"
| "step (Enqueue j p) q = enqueue j p q"
| "step (Wake i) q =
     (if i < length (calls q) \<and> snd (calls q ! i) = Polling
      then add_loop i (fst (calls q ! i)) q else q)"
| "step (Settle i out) q =
     (if i < length (calls q) \<and> is_awaiting (snd (calls q ! i))
      then add_settle i (fst (calls q ! i)) out q else q)"
| "step Pause q = q\<lparr>paused := True\<rparr>"
| "step Resume q = processNext (q\<lparr>paused := False\<rparr>)"
| "step Clear q = q\<lparr>queue := []\<rparr>"

definition run :: "'v action list \<Rightarrow> 'v task_queue \<Rightarrow> 'v task_queue" where
  "run acts q = fold step acts q"

text \<open>A write to the running count respects the limit \<open>c\<close>: a slot is taken only below it.\<close>

fun within_limit :: "int \<Rightarrow> qevent \<Rightarrow> bool" where
  "within_limit c (SlotTaken r) = (r < c)"
| "within_limit c (SlotFreed r) = (r \<le> c)"

definition qinv :: "int \<Rightarrow> 'v task_queue \<Rightarrow> bool" where
  "qinv c q \<longleftrightarrow> concurrency q = c \<and> running q \<le> c \<and> list_all (within_limit c) (history q)"

text \<open>
  The jobs in flight are the calls that await their job's promise. \<open>slack\<close> is what the
  running count shows beyond them, and \<open>keeps I q q'\<close> says that \<open>q'\<close> has every call
  of \<open>q\<close> at its place, unchanged outside the positions \<open>I\<close>.
\<close>

definition awaiting_count :: "'v task_queue \<Rightarrow> nat" where
  "awaiting_count q = length (filter (\<lambda>call. is_awaiting (snd call)) (calls q))"

definition slack :: "'v task_queue \<Rightarrow> int" where
  "slack q = running q - int (awaiting_count q)"

definition keeps :: "nat set \<Rightarrow> 'v task_queue \<Rightarrow> 'v task_queue \<Rightarrow> bool" where
  "keeps I q q' \<longleftrightarrow>
     length (calls q) \<le> length (calls q') \<and>
     (\<forall>k < length (calls q). k \<notin> I \<longrightarrow> calls q' ! k = calls q ! k)"

section \<open>Per-job processor (VideoService.processVideo)\<close>

text \<open>
  \<^verbatim>\<open>String.prototype.trim\<close>. A string is the UTF-8 text of the file; \<open>white_space\<close>
  lists the encodings of the code points that \<^verbatim>\<open>trim\<close> removes: the white space and
  line terminators of ECMAScript (U+0009 to U+000D, U+0020, U+00A0, U+1680, U+2000 to
  U+200A, U+2028, U+2029, U+202F, U+205F, U+3000, U+FEFF). \<open>strip_start\<close> removes them
  from the front for as long as one is there.
\<close>

definition white_space :: "string list" where
  "white_space =
     [[CHR 0x09], [CHR 0x0A], [CHR 0x0B], [CHR 0x0C], [CHR 0x0D], [CHR 0x20],
      [CHR 0xC2, CHR 0xA0],
      [CHR 0xE1, CHR 0x9A, CHR 0x80],
      [CHR 0xE2, CHR 0x80, CHR 0x80], [CHR 0xE2, CHR 0x80, CHR 0x81],
      [CHR 0xE2, CHR 0x80, CHR 0x82], [CHR 0xE2, CHR 0x80, CHR 0x83],
      [CHR 0xE2, CHR 0x80, CHR 0x84], [CHR 0xE2, CHR 0x80, CHR 0x85],
      [CHR 0xE2, CHR 0x80, CHR 0x86], [CHR 0xE2, CHR 0x80, CHR 0x87],
      [CHR 0xE2, CHR 0x80, CHR 0x88], [CHR 0xE2, CHR 0x80, CHR 0x89],
      [CHR 0xE2, CHR 0x80, CHR 0x8A],
      [CHR 0xE2, CHR 0x80, CHR 0xA8], [CHR 0xE2, CHR 0x80, CHR 0xA9],
      [CHR 0xE2, CHR 0x80, CHR 0xAF],
      [CHR 0xE2, CHR 0x81, CHR 0x9F],
      [CHR 0xE3, CHR 0x80, CHR 0x80],
      [CHR 0xEF, CHR 0xBB, CHR 0xBF]]"

function strip_start :: "string list \<Rightarrow> string \<Rightarrow> string" where
  "strip_start toks s =
     (case filter (\<lambda>t. t \<noteq> [] \<and> prefix t s) toks of
        [] \<Rightarrow> s
      | t # ts \<Rightarrow> strip_start toks (drop (length t) s))"
  by pat_completeness auto
termination
proof (relation "measure (\<lambda>(toks, s). length s)")
  show "wf (measure (\<lambda>(toks, s). length s))" by simp
next
  fix toks :: "string list" and s t :: string and ts
  assume "filter (\<lambda>t. t \<noteq> [] \<and> prefix t s) toks = t # ts"
  then have "t \<in> set (filter (\<lambda>t. t \<noteq> [] \<and> prefix t s) toks)" by simp
  then have "t \<noteq> []" and "prefix t s" by simp_all
  then have "s \<noteq> []" by auto
  with \<open>t \<noteq> []\<close> show "((toks, drop (length t) s), (toks, s)) \<in> measure (\<lambda>(toks, s). length s)"
    by simp
qed

declare strip_start.simps [simp del]

definition trim :: "string \<Rightarrow> string" where
  "trim s = rev (strip_start (map rev white_space) (rev (strip_start white_space s)))"

text \<open>\<^verbatim>\<open>String.prototype.replace\<close> with a string pattern: the first occurrence only.\<close>

fun replace_first :: "string \<Rightarrow> string \<Rightarrow> string \<Rightarrow> string" where
  "replace_first pat rep [] = (if pat = [] then rep else [])"
| "replace_first pat rep (c # cs) =
     (if prefix pat (c # cs) then rep @ drop (length pat) (c # cs)
      else c # replace_first pat rep cs)"

text \<open>
  The request's \<^verbatim>\<open>config\<close> object. \<open>outputDir\<close> is \<open>None\<close> when absent or empty (falsy);
  \<open>cfg_concurrency\<close> is \<^verbatim>\<open>parseInt(config.concurrency)\<close>, \<open>None\<close> for \<^verbatim>\<open>NaN\<close>.
\<close>

record config =
  outputDir :: "string option"
  coverMode :: string
  thumbnailPosition :: position
  cfg_concurrency :: "int option"

text \<open>
  Everything outside the repository that a job touches: the URL library, Node's
  \<^verbatim>\<open>path\<close> functions (\<open>path_basename_ext p ext\<close> is \<^verbatim>\<open>path.basename(p, ext)\<close>), the file system
  (\<open>fs_access\<close> tells whether \<^verbatim>\<open>fs.access\<close> resolves), the HTTP client (\<open>http_head\<close> tells
  whether \<^verbatim>\<open>axios.head\<close> resolves), the probe (\<open>Inl ProbeTimeout\<close> when the timer wins,
  another \<open>Inl\<close> when \<^verbatim>\<open>ffprobe\<close> reports an error, else \<^verbatim>\<open>metadata.format.duration\<close>),
  the frame extraction with its post-processing (\<open>render url offset out\<close>: an error, or
  the size in bytes of the image written), and \<^verbatim>\<open>Math.random()\<close>.
\<close>

record env =
  lib :: url_lib
  path_basename :: "string \<Rightarrow> string"
  path_basename_ext :: "string \<Rightarrow> string \<Rightarrow> string"
  path_dirname :: "string \<Rightarrow> string"
  path_join :: "string \<Rightarrow> string \<Rightarrow> string"
  path_resolve :: "string \<Rightarrow> string"
  fs_access :: "string \<Rightarrow> bool"
  fs_readFile :: "string \<Rightarrow> error + string"
  fs_writeFile :: "string \<Rightarrow> error option"
  http_head :: "string \<Rightarrow> bool"
  ffprobe :: "string \<Rightarrow> error + jsnum"
  render :: "string \<Rightarrow> real \<Rightarrow> string \<Rightarrow> error + nat"
  math_random :: real

definition blockedPaths :: "string list" where
  "blockedPaths =
     [''/etc'', ''/sys'', ''/proc'', ''/dev'', ''/root'', ''/boot'', ''/usr/bin'', ''/usr/sbin'']"

fun matchBlockedPath :: "string \<Rightarrow> string list \<Rightarrow> bool" where
  "matchBlockedPath resolvedPath [] = False"
| "matchBlockedPath resolvedPath (blocked # rest) =
     (if startsWith resolvedPath blocked then True else matchBlockedPath resolvedPath rest)"

definition validatePath :: "env \<Rightarrow> string \<Rightarrow> error + string" where
  "validatePath E filePath =
     (let resolvedPath = path_resolve E filePath in
      if matchBlockedPath resolvedPath blockedPaths then Inl SystemDirectory
      else Inr resolvedPath)"

text \<open>The events written to the response stream.\<close>

record counters =
  total :: nat
  processed :: nat
  success :: nat
  failed :: nat

datatype log_message =
    Announce int nat
  | SkipExisting string
  | StartProcessing string
  | FetchingInfo
  | GeneratingCover
  | NfoWritten string
  | Succeeded string
  | Failure string error

datatype level = Info | ErrorLevel

datatype event =
    Log log_message level
  | ProgressEvent counters
  | FailedEvent string
  | Complete counters "string list"

type_synonym log_line = "log_message \<times> level"

text \<open>The object a job returns: \<^verbatim>\<open>{ success, skipped, error }\<close>.\<close>

record proc_result =
  res_success :: bool
  res_skipped :: bool
  res_error :: "error option"

definition checkVideoUrl :: "env \<Rightarrow> string \<Rightarrow> bool \<times> effect list" where
  "checkVideoUrl E videoUrl =
     (case validateUrl (lib E) videoUrl of
        Inl e \<Rightarrow> (False, [])
      | Inr ok \<Rightarrow> (http_head E videoUrl, [HttpHead videoUrl]))"

text \<open>
  \<^verbatim>\<open>VideoService.getVideoDuration\<close> of the service: the cache, the URL check, then one
  probe under a timer. There is no second strategy in this version.
\<close>

definition getVideoDuration ::
  "env \<Rightarrow> real cache_service \<Rightarrow> string
     \<Rightarrow> (error + real) \<times> real cache_service \<times> effect list" where
  "getVideoDuration E cs videoUrl =
     (let cacheKey = ''duration:'' @ videoUrl in
      case cache_get cacheKey cs of
        Some d \<Rightarrow> (Inr d, cs, [])
      | None \<Rightarrow>
          (case validateUrl (lib E) videoUrl of
             Inl e \<Rightarrow> (Inl e, cs, [])
           | Inr ok \<Rightarrow>
               (case ffprobe E videoUrl of
                  Inl err \<Rightarrow>
                    (Inl (if err = ProbeTimeout then ProbeTimeout else DurationUnavailable),
                     cs, [Probe videoUrl])
                | Inr NaN \<Rightarrow> (Inl DurationUnparsable, cs, [Probe videoUrl])
                | Inr (Num r) \<Rightarrow>
                    if r = 0 then (Inl DurationUnparsable, cs, [Probe videoUrl])
                    else (Inr r, cache_set cacheKey r cs, [Probe videoUrl]))))"

definition generateThumbnail ::
  "env \<Rightarrow> string \<Rightarrow> string \<Rightarrow> real \<Rightarrow> position \<Rightarrow> (error + nat) \<times> effect list" where
  "generateThumbnail E videoUrl outputPath duration position =
     (case validatePath E outputPath of
        Inl e \<Rightarrow> (Inl e, [])
      | Inr safeOutputPath \<Rightarrow>
          (case render E videoUrl (seekTime position duration (math_random E)) safeOutputPath of
             Inl e \<Rightarrow> (Inl e, [Render videoUrl])
           | Inr bytes \<Rightarrow>
               if bytes < 1000 then (Inl ThumbnailTooSmall, [Render videoUrl])
               else (Inr bytes, [Render videoUrl])))"

definition generateNFO :: "env \<Rightarrow> string \<Rightarrow> (error + string) \<times> effect list" where
  "generateNFO E strmFile =
     (let nfoFile = replace_first ''.strm'' ''.nfo'' strmFile in
      case fs_writeFile E nfoFile of
        Some e \<Rightarrow> (Inl e, [WriteNfo nfoFile])
      | None \<Rightarrow> (Inr nfoFile, [WriteNfo nfoFile]))"

text \<open>\<^verbatim>\<open>config.thumbnailPosition || 'middle'\<close>: a falsy value gives the default.\<close>

definition position_or_middle :: "position \<Rightarrow> position" where
  "position_or_middle p =
     (case p of
        PosUndefined \<Rightarrow> PosString ''middle''
      | PosString s \<Rightarrow> if s = [] then PosString ''middle'' else p
      | PosNumber n \<Rightarrow> if n = 0 then PosString ''middle'' else p)"

text \<open>Where the cover goes: the configured output directory, or beside the source.\<close>

definition output_thumb :: "env \<Rightarrow> config \<Rightarrow> string \<Rightarrow> string \<Rightarrow> string" where
  "output_thumb E cfg baseName dirName =
     (case outputDir cfg of
        Some dir \<Rightarrow> path_join E dir (baseName @ ''.jpg'')
      | None \<Rightarrow> path_join E dirName (baseName @ ''.jpg''))"

text \<open>
  The \<^verbatim>\<open>try\<close> block of \<^verbatim>\<open>processVideo\<close>, in two parts. Each returns what was thrown or
  returned, the log lines sent, the outside calls made, and the cache.
\<close>

definition pipeline_tail ::
  "env \<Rightarrow> config \<Rightarrow> real cache_service \<Rightarrow> string \<Rightarrow> string \<Rightarrow> string \<Rightarrow> string
     \<Rightarrow> (error + proc_result) \<times> log_line list \<times> effect list \<times> real cache_service" where
  "pipeline_tail E cfg cs baseName outputThumb safeStrmFile videoUrl =
     (case getVideoDuration E cs videoUrl of
        (Inl e, cs1, eff1) \<Rightarrow> (Inl e, [(FetchingInfo, Info)], eff1, cs1)
      | (Inr duration, cs1, eff1) \<Rightarrow>
          (case generateThumbnail E videoUrl outputThumb duration
                  (position_or_middle (thumbnailPosition cfg)) of
             (Inl e, eff2) \<Rightarrow>
               (Inl e, [(FetchingInfo, Info), (GeneratingCover, Info)], eff1 @ eff2, cs1)
           | (Inr bytes, eff2) \<Rightarrow>
               (case generateNFO E safeStrmFile of
                  (Inl e, eff3) \<Rightarrow>
                    (Inl e, [(FetchingInfo, Info), (GeneratingCover, Info)],
                     eff1 @ eff2 @ eff3, cs1)
                | (Inr nfoFile, eff3) \<Rightarrow>
                    (Inr \<lparr>res_success = True, res_skipped = False, res_error = None\<rparr>,
                     [(FetchingInfo, Info), (GeneratingCover, Info),
                      (NfoWritten (replace_first ''.strm'' ''.nfo'' (path_basename E safeStrmFile)),
                       Info),
                      (Succeeded baseName, Info)],
                     eff1 @ eff2 @ eff3, cs1))))"

definition try_block ::
  "env \<Rightarrow> config \<Rightarrow> real cache_service \<Rightarrow> string \<Rightarrow> string \<Rightarrow> string
     \<Rightarrow> (error + proc_result) \<times> log_line list \<times> effect list \<times> real cache_service" where
  "try_block E cfg cs baseName dirName safeStrmFile =
     (let outputThumb = output_thumb E cfg baseName dirName in
      if coverMode cfg = ''1'' \<and> fs_access E outputThumb then
        (Inr \<lparr>res_success = True, res_skipped = True, res_error = None\<rparr>,
         [(SkipExisting baseName, Info)], [FsAccess outputThumb], cs)
      else
        (let eff0 = (if coverMode cfg = ''1'' then [FsAccess outputThumb] else [])
                      @ [FsReadFile safeStrmFile]
         in case fs_readFile E safeStrmFile of
              Inl e \<Rightarrow> (Inl e, [], eff0, cs)
            | Inr body \<Rightarrow>
                (let videoUrl = trim body in
                 case validateUrl (lib E) videoUrl of
                   Inl e \<Rightarrow> (Inl e, [], eff0, cs)
                 | Inr ok \<Rightarrow>
                     (case checkVideoUrl E videoUrl of
                        (False, effh) \<Rightarrow>
                          (Inl UrlUnreachable, [(StartProcessing baseName, Info)],
                           eff0 @ effh, cs)
                      | (True, effh) \<Rightarrow>
                          (case pipeline_tail E cfg cs baseName outputThumb safeStrmFile videoUrl of
                             (r, logs, effs, cs1) \<Rightarrow>
                               (r, (StartProcessing baseName, Info) # logs,
                                eff0 @ effh @ effs, cs1))))))"

text \<open>
  \<^verbatim>\<open>processVideo\<close>: the path check stands before the \<^verbatim>\<open>try\<close>, so what it throws leaves the
  function; whatever the \<^verbatim>\<open>try\<close> block throws is caught, logged and returned as a
  failure.
\<close>

definition processVideo ::
  "env \<Rightarrow> config \<Rightarrow> real cache_service \<Rightarrow> string
     \<Rightarrow> proc_result outcome \<times> log_line list \<times> effect list \<times> real cache_service" where
  "processVideo E cfg cs strmFile =
     (let baseName = path_basename_ext E strmFile ''.strm'';
          dirName = path_dirname E strmFile
      in case validatePath E strmFile of
           Inl e \<Rightarrow> (Threw e, [], [], cs)
         | Inr safeStrmFile \<Rightarrow>
             (case try_block E cfg cs baseName dirName safeStrmFile of
                (Inr result, logs, effs, cs1) \<Rightarrow> (Returned result, logs, effs, cs1)
              | (Inl e, logs, effs, cs1) \<Rightarrow>
                  (Returned \<lparr>res_success = False, res_skipped = False, res_error = Some e\<rparr>,
                   logs @ [(Failure baseName e, ErrorLevel)], effs, cs1)))"

text \<open>The calls that reach the network: the reachability check, a probe, a download, the extraction.\<close>

fun is_network :: "effect \<Rightarrow> bool" where
  "is_network (HttpHead u) = True"
| "is_network (Probe u) = True"
| "is_network (DownloadSample u) = True"
| "is_network (Render u) = True"
| "is_network _ = False"

text \<open>Dotted-quad host names, for stating which addresses a URL points to.\<close>

definition digit :: "nat \<Rightarrow> char" where
  "digit n = char_of (48 + n)"

definition octet :: "nat \<Rightarrow> string" where
  "octet n =
     (if n < 10 then [digit n]
      else if n < 100 then [digit (n div 10), digit (n mod 10)]
      else [digit (n div 100), digit (n div 10 mod 10), digit (n mod 10)])"

definition ipv4 :: "nat \<Rightarrow> nat \<Rightarrow> nat \<Rightarrow> nat \<Rightarrow> string" where
  "ipv4 a b c d = octet a @ ''.'' @ octet b @ ''.'' @ octet c @ ''.'' @ octet d"

definition claimed_range :: "nat \<Rightarrow> nat \<Rightarrow> nat \<Rightarrow> nat \<Rightarrow> bool" where
  "claimed_range a b c d \<longleftrightarrow>
     (a = 127 \<and> b = 0 \<and> c = 0 \<and> d = 1) \<or> (a = 169 \<and> b = 254) \<or> a = 10 \<or>
     (a = 192 \<and> b = 168) \<or> (a = 172 \<and> b = 16)"

section \<open>Batch orchestrator (routes/video.js, POST /process)\<close>

text \<open>The configured defaults the handler reads with \<^verbatim>\<open>config.get\<close>.\<close>

record sys_config =
  defaultConcurrency :: int
  minConcurrency :: int
  maxConcurrency :: int

text \<open>
  \<^verbatim>\<open>parseInt(processConfig.concurrency) || config.get('defaultConcurrency')\<close>, then the
  clamp for small batches and the scaling for large ones. The queue is built with the
  floor of the result.
\<close>

definition resolve_concurrency :: "sys_config \<Rightarrow> config \<Rightarrow> nat \<Rightarrow> real" where
  "resolve_concurrency sys cfg n =
     (let c0 = (case cfg_concurrency cfg of
                  None \<Rightarrow> defaultConcurrency sys
                | Some k \<Rightarrow> if k = 0 then defaultConcurrency sys else k)
      in if n < 10 then of_int (min c0 (minConcurrency sys))
         else if n > 100 then min (of_int c0 * 1.5) (of_int (maxConcurrency sys))
         else of_int c0)"

text \<open>
  The handler awaits \<^verbatim>\<open>Promise.all\<close>: it is \<open>Waiting\<close>, has \<open>Ended\<close> the response after the
  complete event, or was \<open>Aborted\<close> by the first rejected task.
\<close>

datatype handler = Waiting | Ended | Aborted error

text \<open>
  What the processor does for one job, as the orchestrator sees it: the log lines it
  sends, one per resumption, and how its promise settles.
\<close>

type_synonym behaviour = "log_line list \<times> proc_result outcome"

definition behaviour_of ::
  "proc_result outcome \<times> log_line list \<times> effect list \<times> real cache_service \<Rightarrow> behaviour"
  where
  "behaviour_of r = (case r of (out, logs, effs, cs) \<Rightarrow> (logs, out))"

record batch =
  files :: "string list"
  tq :: "unit task_queue"
  progress :: counters
  failedFiles :: "string list"
  events :: "event list"
  todo :: "behaviour list"
  handler :: handler

text \<open>The task closure after \<^verbatim>\<open>await videoService.processVideo(...)\<close> returned \<open>result\<close>.\<close>

definition task_continuation :: "string \<Rightarrow> proc_result \<Rightarrow> batch \<Rightarrow> batch" where
  "task_continuation file result s =
     (let s1 =
        (if res_success result then
           (if \<not> res_skipped result
            then s\<lparr>progress := (progress s)\<lparr>success := success (progress s) + 1\<rparr>\<rparr>
            else s)
         else s\<lparr>progress := (progress s)\<lparr>failed := failed (progress s) + 1\<rparr>,
                failedFiles := failedFiles s @ [file],
                events := events s @ [FailedEvent file]\<rparr>);
          s2 = s1\<lparr>progress := (progress s1)\<lparr>processed := processed (progress s1) + 1\<rparr>\<rparr>
      in s2\<lparr>events := events s2 @ [ProgressEvent (progress s2)]\<rparr>)"

fun is_fulfilled :: "'v phase \<Rightarrow> bool" where
  "is_fulfilled (Fulfilled v) = True"
| "is_fulfilled _ = False"

text \<open>
  The continuation of \<^verbatim>\<open>await Promise.all(...)\<close>: once every promise is fulfilled the
  handler sends the complete event and ends the response.
\<close>

definition promise_all :: "batch \<Rightarrow> batch" where
  "promise_all s =
     (if handler s = Waiting \<and> list_all (\<lambda>call. is_fulfilled (snd call)) (calls (tq s))
      then s\<lparr>events := events s @ [Complete (progress s) (failedFiles s)], handler := Ended\<rparr>
      else s)"

text \<open>
  Job \<open>i\<close>'s processor settles. When it returned, the closure counts the result and
  returns, the queue releases the slot, and \<^verbatim>\<open>Promise.all\<close> is looked at again. When it
  threw, the closure rejects, the queue releases the slot and rethrows, and the first
  such rejection rejects \<^verbatim>\<open>Promise.all\<close>, which ends the handler without a complete
  event.
\<close>

definition settle_job :: "nat \<Rightarrow> proc_result outcome \<Rightarrow> batch \<Rightarrow> batch" where
  "settle_job i out s =
     (case out of
        Returned result \<Rightarrow>
          (let s1 = task_continuation (files s ! i) result s;
               s2 = s1\<lparr>tq := add_settle i (Fn i) (Returned ()) (tq s1)\<rparr>
           in promise_all s2)
      | Threw e \<Rightarrow>
          (let s1 = s\<lparr>tq := add_settle i (Fn i) (Threw e) (tq s)\<rparr>
           in s1\<lparr>handler := (if handler s1 = Waiting then Aborted e else handler s1)\<rparr>))"

text \<open>
  The event loop of one batch: the polling timer of call \<open>i\<close> fires, or job \<open>i\<close>
  resumes and either sends its next log line or settles.
\<close>

datatype oaction = Tick nat | Advance nat

fun ostep :: "oaction \<Rightarrow> batch \<Rightarrow> batch" where
  "ostep (Tick i) s = s\<lparr>tq := step (Wake i) (tq s)\<rparr>"
| "ostep (Advance i) s =
     (if i < length (calls (tq s)) \<and> i < length (files s) \<and> i < length (todo s) \<and>
         is_awaiting (snd (calls (tq s) ! i))
      then (case todo s ! i of
              (l # ls, out) \<Rightarrow>
                s\<lparr>events := events s @ [Log (fst l) (snd l)], todo := (todo s)[i := (ls, out)]\<rparr>
            | ([], out) \<Rightarrow> settle_job i out s)
      else s)"

definition exec :: "oaction list \<Rightarrow> batch \<Rightarrow> batch" where
  "exec acts s = fold ostep acts s"

text \<open>
  The synchronous part of the handler: the counters, the queue, the announcement, one
  \<^verbatim>\<open>add\<close> per file in order, and the \<^verbatim>\<open>await\<close> (an empty \<^verbatim>\<open>Promise.all\<close> is fulfilled at
  once). \<open>beh i\<close> is the behaviour of the processor on file \<open>i\<close>.
\<close>

definition runBatch :: "sys_config \<Rightarrow> config \<Rightarrow> string list \<Rightarrow> (nat \<Rightarrow> behaviour) \<Rightarrow> batch" where
  "runBatch sys cfg fs beh =
     (let c = resolve_concurrency sys cfg (length fs);
          s0 = \<lparr>files = fs, tq = new_TaskQueue \<lfloor>c\<rfloor>,
                progress = \<lparr>total = length fs, processed = 0, success = 0, failed = 0\<rparr>,
                failedFiles = [],
                events = [Log (Announce \<lfloor>c\<rfloor> (length fs)) Info],
                todo = map beh [0..<length fs],
                handler = Waiting\<rparr>;
          s1 = s0\<lparr>tq := fold (\<lambda>j. add (Fn j)) [0..<length fs] (tq s0)\<rparr>
      in promise_all s1)"

text \<open>Worked examples: the shipped defaults, a plain request, a small environment.\<close>

definition default_sys :: sys_config where
  "default_sys = \<lparr>defaultConcurrency = 4, minConcurrency = 2, maxConcurrency = 8\<rparr>"

definition demo_config :: config where
  "demo_config =
     \<lparr>outputDir = None, coverMode = ''1'', thumbnailPosition = PosString ''middle'',
      cfg_concurrency = None\<rparr>"

definition demo_env :: env where
  "demo_env =
     \<lparr>lib = demo_lib,
      path_basename = (\<lambda>p. ''movie.strm''),
      path_basename_ext = (\<lambda>p ext. ''movie''),
      path_dirname = (\<lambda>p. ''/media''),
      path_join = (\<lambda>a b. a @ ''/'' @ b),
      path_resolve = (\<lambda>p. p),
      fs_access = (\<lambda>p. p = ''/media/movie.jpg''),
      fs_readFile = (\<lambda>p. Inr ''http://127.0.0.1/a.mp4''),
      fs_writeFile = (\<lambda>p. None),
      http_head = (\<lambda>u. True),
      ffprobe = (\<lambda>u. Inr (Num 120)),
      render = (\<lambda>u t out. Inr 50000),
      math_random = 0\<rparr>"

definition demo_tools :: probe_tools where
  "demo_tools =
     \<lparr>ffprobe_url = (\<lambda>url.
         if url = ''http://media.example.org/a.mp4'' then Inr (Num 120)
         else if url = ''http://media.example.org/neg.mp4'' then Inr (Num (- 5))
         else Inl (External ''ffprobe: exit 1'')),
      curl_sample = (\<lambda>url. url = ''http://media.example.org/b.mp4''),
      ffprobe_sample = (\<lambda>url. Inr (Num 300))\<rparr>"

definition empty_cache :: "string \<rightharpoonup> real" where
  "empty_cache = Map.empty"

text \<open>
  Two URLs with IPv6 hosts, both accepted by \<^verbatim>\<open>validator.isURL\<close>, with the host names the
  URL parser gives them: the loopback address in its IPv4-mapped form, and a unique
  local address.
\<close>

definition ipv6_lib :: url_lib where
  "ipv6_lib =
     \<lparr>lib_isURL = (\<lambda>url. True),
      lib_hostname = (\<lambda>url.
         if url = ''http://[::ffff:127.0.0.1]/a.mp4'' then Some ''[::ffff:7f00:1]''
         else if url = ''http://[fd00::1]/a.mp4'' then Some ''[fd00::1]''
         else None)\<rparr>"

text \<open>The six patterns spelled out in the description of the block list.\<close>

definition listed_patterns :: "string list" where
  "listed_patterns = [''10.'', ''172.16'', ''192.168'', ''169.254'', ''localhost'', ''127.0.0.1'']"

text \<open>
  The same environment with no cover on disk and a source file that holds the
  IPv4-mapped loopback URL.
\<close>

definition mapped_env :: env where
  "mapped_env =
     demo_env\<lparr>lib := ipv6_lib,
              fs_access := (\<lambda>p. False),
              fs_readFile := (\<lambda>p. Inr ''http://[::ffff:127.0.0.1]/a.mp4'')\<rparr>"

definition skip_job :: "nat \<Rightarrow> behaviour" where
  "skip_job i =
     behaviour_of (processVideo demo_env demo_config new_CacheService ''/media/movie.strm'')"

definition system_path_job :: "nat \<Rightarrow> behaviour" where
  "system_path_job i =
     behaviour_of (processVideo demo_env demo_config new_CacheService ''/etc/passwd.strm'')"

text \<open>The batch of the single file \<open>/etc/passwd.strm\<close> after its task was rejected.\<close>

definition aborted_batch :: batch where
  "aborted_batch =
     \<lparr>files = [''/etc/passwd.strm''],
      tq = \<lparr>concurrency = 2, running = 0, queue = [], stats_total = 1, stats_completed = 0,
            stats_failed = 1, stats_active = 0, paused = False,
            calls = [(Fn 0, Rejected SystemDirectory)], history = [SlotTaken 0, SlotFreed 1]\<rparr>,
      progress = \<lparr>total = 1, processed = 0, success = 0, failed = 0\<rparr>,
      failedFiles = [],
      events = [Log (Announce 2 1) Info],
      todo = [([], Threw SystemDirectory)],
      handler = Aborted SystemDirectory\<rparr>"

section \<open>Invariant of a batch\<close>

text \<open>
  The number of fulfilled calls of a queue, and the shape the orchestrator keeps it
  in: nothing enqueued, every call made with a function.
\<close>

definition fulfilled_count :: "'v task_queue \<Rightarrow> nat" where
  "fulfilled_count q = length (filter (\<lambda>call. is_fulfilled (snd call)) (calls q))"

definition only_functions :: "'v task_queue \<Rightarrow> bool" where
  "only_functions q \<longleftrightarrow> queue q = [] \<and> list_all (\<lambda>call. case fst call of Fn j \<Rightarrow> True | Wrapper j p \<Rightarrow> False) (calls q)"

text \<open>
  A behaviour \<open>skips\<close> when the processor returns success with the skipped mark.
  \<open>counters_ok ns n p\<close> is what holds of the counters \<open>p\<close> of a batch of \<open>n\<close> files;
  \<open>ns\<close> tells that no job of the batch skips.
\<close>

definition skips :: "behaviour \<Rightarrow> bool" where
  "skips b = (case snd b of Returned r \<Rightarrow> res_success r \<and> res_skipped r | Threw e \<Rightarrow> False)"

definition counters_ok :: "bool \<Rightarrow> nat \<Rightarrow> counters \<Rightarrow> bool" where
  "counters_ok ns n p \<longleftrightarrow>
     total p = n \<and> success p + failed p \<le> processed p \<and> processed p \<le> total p \<and>
     (ns \<longrightarrow> processed p = success p + failed p)"

fun event_ok :: "bool \<Rightarrow> nat \<Rightarrow> event \<Rightarrow> bool" where
  "event_ok ns n (ProgressEvent p) = counters_ok ns n p"
| "event_ok ns n (Complete p ff) = (counters_ok ns n p \<and> processed p = total p)"
| "event_ok ns n (Log m l) = True"
| "event_ok ns n (FailedEvent f) = True"

definition binv :: "bool \<Rightarrow> nat \<Rightarrow> batch \<Rightarrow> bool" where
  "binv ns n s \<longleftrightarrow>
     length (files s) = n \<and> only_functions (tq s) \<and> length (calls (tq s)) = n \<and>
     processed (progress s) = fulfilled_count (tq s) \<and>
     counters_ok ns n (progress s) \<and>
     (ns \<longrightarrow> list_all (\<lambda>b. \<not> skips b) (todo s)) \<and>
     list_all (event_ok ns n) (events s)"

section \<open>Facts about strings\<close>

lemma includes_iff: "str_includes s p \<longleftrightarrow> (\<exists>a b. s = a @ p @ b)"
proof (induction s)
  case Nil
  show ?case by auto
next
  case (Cons c cs)
  show ?case
  proof
    assume "str_includes (c # cs) p"
    then consider "prefix p (c # cs)" | "str_includes cs p" by auto
    then show "\<exists>a b. c # cs = a @ p @ b"
    proof cases
      case 1
      then obtain b where "c # cs = p @ b" by (auto simp: prefix_def)
      then have "c # cs = [] @ p @ b" by simp
      then show ?thesis by blast
    next
      case 2
      with Cons.IH obtain a b where "cs = a @ p @ b" by blast
      then have "c # cs = (c # a) @ p @ b" by simp
      then show ?thesis by blast
    qed
  next
    assume "\<exists>a b. c # cs = a @ p @ b"
    then obtain a b where ab: "c # cs = a @ p @ b" by blast
    show "str_includes (c # cs) p"
    proof (cases a)
      case Nil
      with ab have "prefix p (c # cs)" by (simp add: prefix_def)
      then show ?thesis by simp
    next
      case (Cons x a')
      with ab have "cs = a' @ p @ b" by simp
      with Cons.IH have "str_includes cs p" by blast
      then show ?thesis by simp
    qed
  qed
qed

lemma strip_start_stop:
  "\<not> list_ex (\<lambda>t. t \<noteq> [] \<and> prefix t s) toks \<Longrightarrow> strip_start toks s = s"
  by (subst strip_start.simps) (simp add: list_ex_iff filter_empty_conv)

lemma matchBlocked_iff: "matchBlocked h ps \<longleftrightarrow> (\<exists>p \<in> set ps. str_includes h p)"
  by (induction ps) auto

section \<open>Facts about URL validation\<close>

lemma validateUrl_accepts_iff:
  "validateUrl L url = Inr True \<longleftrightarrow>
     lib_isURL L url \<and>
     (\<exists>h. lib_hostname L url = Some h \<and> \<not> matchBlocked (toLowerCase h) blockedPatterns)"
  by (auto simp: validateUrl_def Let_def split: option.splits)

lemma validateUrl_blocked:
  assumes "lib_hostname L url = Some h" and "matchBlocked (toLowerCase h) blockedPatterns"
  shows "validateUrl L url = Inl (if lib_isURL L url then InternalAddress else InvalidUrlFormat)"
  using assms by (simp add: validateUrl_def)

text \<open>
  C10, as the code has it. The block list is matched as substrings anywhere in the
  lower-cased host name: a URL whose host name contains one of the eight patterns
  (\<open>10.\<close>, \<open>172.16\<close>, \<open>192.168\<close>, \<open>169.254\<close>, \<open>localhost\<close>, \<open>127.0.0.1\<close>, and also
  \<open>0.0.0.0\<close> and \<open>::1\<close>) at any offset is rejected, the public name
  \<open>cdn10.example.com\<close> among them; every URL that passes the format check and whose
  host name contains none of the eight is accepted, the private address \<open>172.17.0.1\<close>
  among them.
\<close>

theorem validateUrl_substring_blocklist:
  "(\<forall>h a p b. lib_hostname L url = Some h \<and> toLowerCase h = a @ p @ b \<and>
       p \<in> {''localhost'', ''127.0.0.1'', ''0.0.0.0'', ''::1'', ''169.254'', ''192.168'',
            ''10.'', ''172.16''}
       \<longrightarrow> (\<exists>e. validateUrl L url = Inl e)) \<and>
   (lib_hostname L url = Some ''cdn10.example.com'' \<longrightarrow> (\<exists>e. validateUrl L url = Inl e)) \<and>
   (\<forall>h. lib_isURL L url \<and> lib_hostname L url = Some h \<and>
       (\<forall>p \<in> {''localhost'', ''127.0.0.1'', ''0.0.0.0'', ''::1'', ''169.254'', ''192.168'',
              ''10.'', ''172.16''}. \<forall>a b. toLowerCase h \<noteq> a @ p @ b)
       \<longrightarrow> validateUrl L url = Inr True) \<and>
   (lib_isURL L url \<and> lib_hostname L url = Some ''172.17.0.1'' \<longrightarrow> validateUrl L url = Inr True)"
proof (intro conjI allI impI)
  fix h a p b
  assume H: "lib_hostname L url = Some h \<and> toLowerCase h = a @ p @ b \<and>
       p \<in> {''localhost'', ''127.0.0.1'', ''0.0.0.0'', ''::1'', ''169.254'', ''192.168'',
            ''10.'', ''172.16''}"
  then have "str_includes (toLowerCase h) p" by (auto simp: includes_iff)
  moreover from H have "p \<in> set blockedPatterns" by (auto simp: blockedPatterns_def)
  ultimately have "matchBlocked (toLowerCase h) blockedPatterns"
    by (auto simp: matchBlocked_iff)
  with H show "\<exists>e. validateUrl L url = Inl e" by (simp add: validateUrl_blocked)
next
  assume H: "lib_hostname L url = Some ''cdn10.example.com''"
  have "matchBlocked (toLowerCase ''cdn10.example.com'') blockedPatterns"
    by (simp add: toLowerCase_def lower_char_def blockedPatterns_def)
  with H show "\<exists>e. validateUrl L url = Inl e" by (simp add: validateUrl_blocked)
next
  fix h
  assume H: "lib_isURL L url \<and> lib_hostname L url = Some h \<and>
       (\<forall>p \<in> {''localhost'', ''127.0.0.1'', ''0.0.0.0'', ''::1'', ''169.254'', ''192.168'',
              ''10.'', ''172.16''}. \<forall>a b. toLowerCase h \<noteq> a @ p @ b)"
  have S: "{''localhost'', ''127.0.0.1'', ''0.0.0.0'', ''::1'', ''169.254'', ''192.168'',
              ''10.'', ''172.16''} = set blockedPatterns"
    by (simp add: blockedPatterns_def)
  from H have H': "lib_isURL L url \<and> lib_hostname L url = Some h \<and>
       (\<forall>p \<in> set blockedPatterns. \<forall>a b. toLowerCase h \<noteq> a @ p @ b)"
    unfolding S .
  from H' have isurl: "lib_isURL L url" by (rule conjunct1)
  from H' have host: "lib_hostname L url = Some h" by (rule conjunct2 [THEN conjunct1])
  from H' have none: "\<forall>p \<in> set blockedPatterns. \<forall>a b. toLowerCase h \<noteq> a @ p @ b"
    by (rule conjunct2 [THEN conjunct2])
  have "\<not> matchBlocked (toLowerCase h) blockedPatterns"
  proof
    assume "matchBlocked (toLowerCase h) blockedPatterns"
    then obtain p where p: "p \<in> set blockedPatterns" and "str_includes (toLowerCase h) p"
      unfolding matchBlocked_iff by (elim bexE)
    then obtain a b where eq: "toLowerCase h = a @ p @ b" unfolding includes_iff by (elim exE)
    from none p have "\<forall>a b. toLowerCase h \<noteq> a @ p @ b" by (rule bspec)
    then have "toLowerCase h \<noteq> a @ p @ b" by (elim allE)
    with eq show False by (rule notE [rotated])
  qed
  with isurl host show "validateUrl L url = Inr True"
    unfolding validateUrl_accepts_iff by (intro conjI exI) assumption+
next
  assume H: "lib_isURL L url \<and> lib_hostname L url = Some ''172.17.0.1''"
  have "\<not> matchBlocked (toLowerCase ''172.17.0.1'') blockedPatterns"
    by (simp add: toLowerCase_def lower_char_def blockedPatterns_def)
  with H show "validateUrl L url = Inr True" by (simp add: validateUrl_accepts_iff)
qed

theorem validateUrl_substring_blocklist_witness:
  "(\<exists>e. validateUrl demo_lib ''http://192.168.1.5/a.mp4'' = Inl e) \<and>
   (\<exists>e. validateUrl demo_lib ''http://cdn10.example.com/a.mp4'' = Inl e) \<and>
   validateUrl demo_lib ''http://media.example.org/a.mp4'' = Inr True \<and>
   validateUrl demo_lib ''http://172.17.0.1/a.mp4'' = Inr True"
proof (intro conjI)
  have "\<forall>p \<in> {''localhost'', ''127.0.0.1'', ''0.0.0.0'', ''::1'', ''169.254'', ''192.168'',
              ''10.'', ''172.16''}. \<not> str_includes (toLowerCase ''media.example.org'') p"
    by (simp add: toLowerCase_def lower_char_def)
  then have none: "\<forall>p \<in> {''localhost'', ''127.0.0.1'', ''0.0.0.0'', ''::1'', ''169.254'',
      ''192.168'', ''10.'', ''172.16''}. \<forall>a b. toLowerCase ''media.example.org'' \<noteq> a @ p @ b"
    unfolding includes_iff not_ex .
  have isurl: "lib_isURL demo_lib ''http://media.example.org/a.mp4''"
    and host: "lib_hostname demo_lib ''http://media.example.org/a.mp4'' = Some ''media.example.org''"
    by (simp_all add: demo_lib_def)
  show "validateUrl demo_lib ''http://media.example.org/a.mp4'' = Inr True"
    by (rule validateUrl_substring_blocklist [of demo_lib "''http://media.example.org/a.mp4''",
          THEN conjunct2, THEN conjunct2, THEN conjunct1, rule_format,
          of "''media.example.org''"])
      (intro conjI isurl host none)
  show "\<exists>e. validateUrl demo_lib ''http://192.168.1.5/a.mp4'' = Inl e"
    using validateUrl_substring_blocklist [of demo_lib "''http://192.168.1.5/a.mp4''",
        THEN conjunct1, rule_format, of "''192.168.1.5''" "[]" "''192.168''" "''.1.5''"]
    by (simp add: demo_lib_def toLowerCase_def lower_char_def)
  show "\<exists>e. validateUrl demo_lib ''http://cdn10.example.com/a.mp4'' = Inl e"
    using validateUrl_substring_blocklist [of demo_lib "''http://cdn10.example.com/a.mp4''"]
    by (simp add: demo_lib_def)
  show "validateUrl demo_lib ''http://172.17.0.1/a.mp4'' = Inr True"
    using validateUrl_substring_blocklist [of demo_lib "''http://172.17.0.1/a.mp4''"]
    by (simp add: demo_lib_def)
qed

text \<open>
  The unique local address \<open>fd00::1\<close> is private and its host name contains none of
  the six patterns named in the description, yet the URL is rejected: the block list
  also holds \<open>::1\<close>.
\<close>

theorem private_ipv6_rejected_counterexample:
  "lib_hostname ipv6_lib ''http://[fd00::1]/a.mp4'' = Some ''[fd00::1]'' \<and>
   \<not> matchBlocked (toLowerCase ''[fd00::1]'') listed_patterns \<and>
   validateUrl ipv6_lib ''http://[fd00::1]/a.mp4'' = Inl InternalAddress"
  by (simp add: ipv6_lib_def listed_patterns_def validateUrl_def blockedPatterns_def
      toLowerCase_def lower_char_def)

section \<open>Facts about the extraction offset\<close>

text \<open>
  C7, as the code has it. For a positive duration \<open>d\<close> and a random draw \<open>r\<close> of
  \<open>[0, 1)\<close> the offset is \<open>min 5 (5% of d)\<close> for \<open>start\<close>, 50% of \<open>d\<close> for \<open>middle\<close>,
  95% of \<open>d\<close> for \<open>end\<close>, \<open>d * (0.1 + 0.8 r)\<close> for \<open>auto\<close>, which is at least 10% and
  strictly below 90% of \<open>d\<close>, and the number itself for a numeric position.
\<close>

theorem seekTime_policy:
  assumes "0 < d" and "0 \<le> r" and "r < 1"
  shows "seekTime (PosString ''start'') d r = min 5 (5 / 100 * d) \<and>
         seekTime (PosString ''middle'') d r = 50 / 100 * d \<and>
         seekTime (PosString ''end'') d r = 95 / 100 * d \<and>
         seekTime (PosString ''auto'') d r = d * (1 / 10 + r * (8 / 10)) \<and>
         10 / 100 * d \<le> seekTime (PosString ''auto'') d r \<and>
         seekTime (PosString ''auto'') d r < 90 / 100 * d \<and>
         seekTime (PosNumber n) d r = n"
proof -
  have lo: "d * (1 / 10) \<le> d * (1 / 10 + r * (8 / 10))"
    using assms by (intro mult_left_mono) auto
  have hi: "d * (1 / 10 + r * (8 / 10)) < d * (9 / 10)"
    using assms by (intro mult_strict_left_mono) auto
  show ?thesis
    using assms lo hi by (simp add: seekTime_def)
qed

theorem seekTime_policy_witness:
  "seekTime (PosString ''start'') 120 (1 / 2) = 5 \<and>
   seekTime (PosString ''middle'') 120 (1 / 2) = 60 \<and>
   seekTime (PosString ''end'') 120 (1 / 2) = 114 \<and>
   seekTime (PosString ''auto'') 120 (1 / 2) = 60 \<and>
   seekTime (PosNumber 7) 120 (1 / 2) = 7"
  using seekTime_policy [of 120 "1 / 2" 7] by simp

text \<open>
  With the draw \<open>r = 0\<close>, which \<^verbatim>\<open>Math.random()\<close> may return, the \<open>auto\<close> offset of a
  100 s video is 10 s: exactly 10% of the duration, not strictly above it.
\<close>

theorem seekTime_auto_counterexample:
  "\<not> (10 / 100 * 100 < seekTime (PosString ''auto'') 100 0)"
  by (simp add: seekTime_def)

section \<open>Facts about the duration cache\<close>

lemma parse_stringify_Number: "parse_value (stringify_value (Number d)) = Number d"
  by simp

text \<open>
  C9, as the code has it. Round trip of the duration cache for finite numbers: after
  \<open>set(url, d)\<close> with a finite number \<open>d\<close> and \<open>save()\<close> on a cache whose file can be
  written, \<open>save()\<close> reports success and \<open>load()\<close> on a fresh instance backed by the
  same file gives \<open>get(url) = d\<close>.
\<close>

theorem cache_round_trip:
  assumes "writable f"
  shows "(case save (cache_set url (Number d) cs) f of
            (ok, cs', f') \<Rightarrow> ok \<and> cache_get url (load new_CacheService f') = Some (Number d))"
  using assms
  by (simp add: save_def cache_set_def cache_get_def load_def new_CacheService_def)

theorem cache_round_trip_witness:
  "writable fresh_file \<and>
   fst (save (cache_set ''duration:http://media.example.org/a.mp4'' (Number 120) new_CacheService)
          fresh_file) \<and>
   cache_get ''duration:http://media.example.org/a.mp4''
     (load new_CacheService
        (snd (snd (save (cache_set ''duration:http://media.example.org/a.mp4'' (Number 120)
                           new_CacheService) fresh_file))))
     = Some (Number 120)"
proof -
  have w: "writable fresh_file" by (simp add: fresh_file_def)
  from cache_round_trip [OF w, of "''duration:http://media.example.org/a.mp4''" 120
      new_CacheService]
  show ?thesis using w by (simp add: case_prod_beta)
qed

text \<open>
  The value \<^verbatim>\<open>Infinity\<close>, which \<^verbatim>\<open>set\<close> takes like any other, is written as \<^verbatim>\<open>null\<close>: the
  fresh instance gives \<^verbatim>\<open>null\<close> for the key, not the value that was set.
\<close>

theorem cache_infinity_counterexample:
  "cache_get ''duration:http://media.example.org/a.mp4''
     (load new_CacheService
        (snd (snd (save (cache_set ''duration:http://media.example.org/a.mp4'' Infinity
                           new_CacheService) fresh_file))))
     = Some Null \<and> Null \<noteq> Infinity"
  by (simp add: save_def cache_set_def cache_get_def load_def new_CacheService_def fresh_file_def)

section \<open>Facts about the task queue\<close>

lemma qinv_preserved:
  fixes q :: "'v task_queue"
  shows "qinv c q \<Longrightarrow> qinv c (add t q)"
    and "qinv c q \<Longrightarrow> qinv c (add_loop i t q)"
    and "qinv c q \<Longrightarrow> qinv c (add_settle i t out q)"
    and "qinv c q \<Longrightarrow> qinv c (processNext q)"
proof (induction t q and i t q and i t out q and q
    rule: add_add_loop_add_settle_processNext.induct)
  case (1 t q)
  have "qinv c (q\<lparr>stats_total := stats_total q + 1, calls := calls q @ [(t, Polling)]\<rparr>)"
    using "1.prems" by (simp add: qinv_def)
  from "1.IH" [OF this] show ?case by (simp add: add.simps)
next
  case (2 i t q)
  show ?case
  proof (cases "concurrency q \<le> running q")
    case True
    with "2.prems" show ?thesis by (simp add: add_loop.simps)
  next
    case False
    define q1 where "q1 = q\<lparr>running := running q + 1, history := history q @ [SlotTaken (running q)]\<rparr>"
    define q2 where "q2 = q1\<lparr>stats_active := running q1\<rparr>"
    have inv2: "qinv c q2"
      using "2.prems" False by (simp add: qinv_def q1_def q2_def)
    show ?thesis
    proof (cases t)
      case (Fn j)
      with False inv2 show ?thesis
        by (simp add: add_loop.simps Let_def q1_def q2_def qinv_def)
    next
      case (Wrapper j p)
      have "qinv c (add_settle i t (Threw TypeError) q2)"
        using "2.IH" [OF _ q1_def q2_def Wrapper inv2] False by simp
      with False Wrapper show ?thesis
        by (simp add: add_loop.simps Let_def q1_def q2_def)
    qed
  qed
next
  case (3 i t out q)
  define q1 where "q1 = (case out of
                  Returned v \<Rightarrow> q\<lparr>stats_completed := stats_completed q + 1\<rparr>
                | Threw e \<Rightarrow> q\<lparr>stats_failed := stats_failed q + 1\<rparr>)"
  define q2 where "q2 = q1\<lparr>running := running q1 - 1, history := history q1 @ [SlotFreed (running q1)]\<rparr>"
  define q3 where "q3 = q2\<lparr>stats_active := running q2\<rparr>"
  have "qinv c q1" using "3.prems" by (simp add: q1_def qinv_def split: outcome.splits)
  then have "qinv c q3" by (simp add: q2_def q3_def qinv_def)
  from "3.IH" [OF q1_def q2_def q3_def this] have "qinv c (processNext q3)" .
  then have "qinv c ((processNext q3)\<lparr>calls := (calls (processNext q3))[i := (t, settled out)]\<rparr>)"
    by (simp add: qinv_def)
  then show ?case
    by (simp add: add_settle.simps Let_def q1_def q2_def q3_def)
next
  case (4 q)
  show ?case
  proof (cases "queue q")
    case Nil
    with "4.prems" show ?thesis by (simp add: processNext.simps)
  next
    case (Cons item rest)
    obtain j p where item: "item = (j, p)" by (cases item)
    show ?thesis
    proof (cases "running q < concurrency q")
      case True
      have "qinv c (q\<lparr>queue := rest\<rparr>)" using "4.prems" by (simp add: qinv_def)
      from "4.IH" [OF Cons [unfolded item] refl True this]
      show ?thesis using Cons item True by (simp add: processNext.simps)
    next
      case False
      with "4.prems" Cons item show ?thesis by (simp add: processNext.simps)
    qed
  qed
qed

lemma qinv_step: "qinv c q \<Longrightarrow> qinv c (step a q)"
proof (cases a)
  case (Enqueue j p)
  assume "qinv c q"
  then have "qinv c (q\<lparr>queue := sort_key (\<lambda>item. - snd item) (queue q @ [(j, p)])\<rparr>)"
    by (simp add: qinv_def)
  then show ?thesis using Enqueue by (simp add: enqueue_def qinv_preserved)
next
  case Resume
  assume "qinv c q"
  then have "qinv c (q\<lparr>paused := False\<rparr>)" by (simp add: qinv_def)
  then show ?thesis using Resume by (simp add: qinv_preserved)
qed (auto simp: qinv_preserved, auto simp: qinv_def)

lemma qinv_run: "qinv c q \<Longrightarrow> qinv c (run acts q)"
  unfolding run_def by (induction acts arbitrary: q) (auto simp: qinv_step)

lemma qinv_new: "0 \<le> c \<Longrightarrow> qinv c (new_TaskQueue c)"
  by (simp add: qinv_def new_TaskQueue_def)

lemma count_update:
  "i < length xs \<Longrightarrow>
     int (length (filter P (xs[i := y]))) =
       int (length (filter P xs)) - (if P (xs ! i) then 1 else 0) + (if P y then 1 else 0)"
proof (induction xs arbitrary: i)
  case Nil
  then show ?case by simp
next
  case (Cons x xs)
  show ?case
  proof (cases i)
    case 0
    then show ?thesis by simp
  next
    case (Suc n)
    with Cons.prems have "n < length xs" by simp
    from Cons.IH [OF this] show ?thesis using Suc by (auto split: if_splits)
  qed
qed

lemma slack_preserved:
  fixes q :: "'v task_queue"
  shows "keeps {} q (add t q) \<and> slack (add t q) = slack q"
    and "i < length (calls q) \<Longrightarrow> \<not> is_awaiting (snd (calls q ! i)) \<Longrightarrow>
           keeps {i} q (add_loop i t q) \<and> slack (add_loop i t q) = slack q"
    and "i < length (calls q) \<Longrightarrow>
           keeps {i} q (add_settle i t out q) \<and>
           slack (add_settle i t out q) =
             slack q - (if is_awaiting (snd (calls q ! i)) then 0 else 1)"
    and "keeps {} q (processNext q) \<and> slack (processNext q) = slack q"
proof (induction t q and i t q and i t out q and q
    rule: add_add_loop_add_settle_processNext.induct)
  case (1 t q)
  define q1 where "q1 = q\<lparr>stats_total := stats_total q + 1, calls := calls q @ [(t, Polling)]\<rparr>"
  have a: "add t q = add_loop (length (calls q)) t q1" by (simp add: add.simps q1_def)
  have l: "length (calls q) < length (calls q1)" by (simp add: q1_def)
  have n: "\<not> is_awaiting (snd (calls q1 ! length (calls q)))" by (simp add: q1_def)
  from "1.IH" [OF l [unfolded q1_def] n [unfolded q1_def], folded q1_def]
  have k: "keeps {length (calls q)} q1 (add_loop (length (calls q)) t q1)"
    and s: "slack (add_loop (length (calls q)) t q1) = slack q1" by auto
  have "slack q1 = slack q" by (simp add: slack_def awaiting_count_def q1_def)
  moreover have "keeps {} q (add_loop (length (calls q)) t q1)"
    using k by (auto simp: keeps_def q1_def nth_append)
  ultimately show ?case using s by (simp add: a)
next
  case (2 i t q)
  show ?case
  proof (cases "concurrency q \<le> running q")
    case True
    then show ?thesis by (simp add: add_loop.simps keeps_def)
  next
    case False
    define q1 where "q1 = q\<lparr>running := running q + 1, history := history q @ [SlotTaken (running q)]\<rparr>"
    define q2 where "q2 = q1\<lparr>stats_active := running q1\<rparr>"
    have c2: "calls q2 = calls q" and r2: "running q2 = running q + 1"
      by (simp_all add: q1_def q2_def)
    show ?thesis
    proof (cases t)
      case (Fn j)
      have e: "add_loop i t q = q2\<lparr>calls := (calls q2)[i := (t, Awaiting j)]\<rparr>"
        using False Fn by (simp add: add_loop.simps Let_def q1_def q2_def)
      have "int (awaiting_count (q2\<lparr>calls := (calls q2)[i := (t, Awaiting j)]\<rparr>)) =
              int (awaiting_count q) + 1"
        using "2.prems" count_update [of i "calls q" "\<lambda>call. is_awaiting (snd call)" "(t, Awaiting j)"]
        by (simp add: awaiting_count_def c2)
      then have "slack (add_loop i t q) = slack q"
        unfolding e by (simp add: slack_def r2)
      moreover have "keeps {i} q (add_loop i t q)"
        unfolding e by (simp add: keeps_def c2)
      ultimately show ?thesis by simp
    next
      case (Wrapper j p)
      have e: "add_loop i t q = add_settle i t (Threw TypeError) q2"
        using False Wrapper by (simp add: add_loop.simps Let_def q1_def q2_def)
      have il: "i < length (calls q2)" using "2.prems" by (simp add: c2)
      from "2.IH" [OF _ q1_def q2_def Wrapper il] False
      have k: "keeps {i} q2 (add_settle i t (Threw TypeError) q2)"
        and s: "slack (add_settle i t (Threw TypeError) q2) =
                  slack q2 - (if is_awaiting (snd (calls q2 ! i)) then 0 else 1)"
        by auto
      have "slack q2 = slack q + 1" by (simp add: slack_def awaiting_count_def c2 r2)
      with s "2.prems" have "slack (add_loop i t q) = slack q" by (simp add: e c2)
      moreover have "keeps {i} q (add_loop i t q)"
        using k by (simp add: e keeps_def c2)
      ultimately show ?thesis by simp
    qed
  qed
next
  case (3 i t out q)
  define q1 where "q1 = (case out of
                  Returned v \<Rightarrow> q\<lparr>stats_completed := stats_completed q + 1\<rparr>
                | Threw e \<Rightarrow> q\<lparr>stats_failed := stats_failed q + 1\<rparr>)"
  define q2 where "q2 = q1\<lparr>running := running q1 - 1, history := history q1 @ [SlotFreed (running q1)]\<rparr>"
  define q3 where "q3 = q2\<lparr>stats_active := running q2\<rparr>"
  define q4 where "q4 = processNext q3"
  have e: "add_settle i t out q = q4\<lparr>calls := (calls q4)[i := (t, settled out)]\<rparr>"
    by (simp add: add_settle.simps Let_def q1_def q2_def q3_def q4_def)
  have c3: "calls q3 = calls q" and r3: "running q3 = running q - 1"
    by (simp_all add: q1_def q2_def q3_def split: outcome.splits)
  from "3.IH" [OF q1_def q2_def q3_def]
  have k: "keeps {} q3 q4" and s: "slack q4 = slack q3" by (simp_all add: q4_def)
  have il: "i < length (calls q4)" and same: "calls q4 ! i = calls q ! i"
    using k "3.prems" by (auto simp: keeps_def c3)
  have ns: "\<not> is_awaiting (snd (t, settled out))"
    by (cases out) (simp_all add: settled_def)
  have "int (awaiting_count (add_settle i t out q)) =
          int (awaiting_count q4) - (if is_awaiting (snd (calls q ! i)) then 1 else 0)"
    unfolding e using count_update [OF il, of "\<lambda>call. is_awaiting (snd call)" "(t, settled out)"] ns
    by (simp add: awaiting_count_def same)
  moreover have "running (add_settle i t out q) = running q4" by (simp add: e)
  moreover have "slack q3 = slack q - 1" by (simp add: slack_def awaiting_count_def c3 r3)
  ultimately have "slack (add_settle i t out q) =
      slack q - (if is_awaiting (snd (calls q ! i)) then 0 else 1)"
    using s by (simp add: slack_def)
  moreover have "keeps {i} q (add_settle i t out q)"
    using k by (auto simp: e keeps_def c3)
  ultimately show ?case by simp
next
  case (4 q)
  show ?case
  proof (cases "queue q")
    case Nil
    then show ?thesis by (simp add: processNext.simps keeps_def)
  next
    case (Cons item rest)
    obtain j p where item: "item = (j, p)" by (cases item)
    show ?thesis
    proof (cases "running q < concurrency q")
      case True
      have e: "processNext q = add (Wrapper j p) (q\<lparr>queue := rest\<rparr>)"
        using Cons item True by (simp add: processNext.simps)
      from "4.IH" [OF Cons [unfolded item] refl True]
      show ?thesis unfolding e by (simp add: keeps_def slack_def awaiting_count_def)
    next
      case False
      with Cons item show ?thesis by (simp add: processNext.simps keeps_def)
    qed
  qed
qed

lemma slack_step: "slack (step a q) = slack q"
proof (cases a)
  case (Add j)
  then show ?thesis using slack_preserved(1) [of q "Fn j"] by simp
next
  case (Enqueue j p)
  then show ?thesis
    using slack_preserved(4) [of "q\<lparr>queue := sort_key (\<lambda>item. - snd item) (queue q @ [(j, p)])\<rparr>"]
    by (simp add: enqueue_def slack_def awaiting_count_def)
next
  case (Wake i)
  show ?thesis
  proof (cases "i < length (calls q) \<and> snd (calls q ! i) = Polling")
    case True
    then have "\<not> is_awaiting (snd (calls q ! i))" by simp
    with True Wake slack_preserved(2) [of i q "fst (calls q ! i)"] show ?thesis by simp
  next
    case False
    with Wake show ?thesis by auto
  qed
next
  case (Settle i out)
  show ?thesis
  proof (cases "i < length (calls q) \<and> is_awaiting (snd (calls q ! i))")
    case True
    with Settle slack_preserved(3) [of i q "fst (calls q ! i)" out] show ?thesis by simp
  next
    case False
    with Settle show ?thesis by auto
  qed
next
  case Pause
  then show ?thesis by (simp add: slack_def awaiting_count_def)
next
  case Resume
  then show ?thesis
    using slack_preserved(4) [of "q\<lparr>paused := False\<rparr>"]
    by (simp add: slack_def awaiting_count_def)
next
  case Clear
  then show ?thesis by (simp add: slack_def awaiting_count_def)
qed

lemma slack_run: "slack (run acts q) = slack q"
  unfolding run_def by (induction acts arbitrary: q) (simp_all add: slack_step)

lemma slack_new: "slack (new_TaskQueue c) = 0"
  by (simp add: slack_def awaiting_count_def new_TaskQueue_def)

lemma parked_at_limit:
  assumes "concurrency q \<le> running q"
  shows "step (Wake i) q = q" and "calls (step (Add j) q) = calls q @ [(Fn j, Polling)]"
  using assms by (simp_all add: add.simps add_loop.simps)

text \<open>
  C2. For a fixed positive concurrency limit \<open>c\<close> and any sequence of submissions,
  timer wake-ups, settlements and queue calls: the number of jobs in flight is at most
  \<open>c\<close> and is what the running count shows; while it is at the limit no step raises
  it, a submission only parks the new call in its polling loop and a wake-up changes
  nothing; and every write to the running count kept the limit, a slot being taken
  only while the count was strictly below \<open>c\<close>.
\<close>

theorem running_never_exceeds_limit:
  assumes "0 < c"
  shows "int (awaiting_count (run acts (new_TaskQueue c))) \<le> c \<and>
         running (run acts (new_TaskQueue c)) = int (awaiting_count (run acts (new_TaskQueue c))) \<and>
         running (run acts (new_TaskQueue c)) \<le> c \<and>
         concurrency (run acts (new_TaskQueue c)) = c \<and>
         (int (awaiting_count (run acts (new_TaskQueue c))) = c \<longrightarrow>
            awaiting_count (step a (run acts (new_TaskQueue c)))
              \<le> awaiting_count (run acts (new_TaskQueue c)) \<and>
            step (Wake i) (run acts (new_TaskQueue c)) = run acts (new_TaskQueue c) \<and>
            calls (step (Add j) (run acts (new_TaskQueue c))) =
              calls (run acts (new_TaskQueue c)) @ [(Fn j, Polling)]) \<and>
         (\<forall>e \<in> set (history (run acts (new_TaskQueue c))).
            case e of SlotTaken r \<Rightarrow> r < c \<and> r + 1 \<le> c | SlotFreed r \<Rightarrow> r \<le> c \<and> r - 1 < c)"
proof -
  have inv: "qinv c (run bs (new_TaskQueue c))" for bs :: "'a action list"
    using assms by (intro qinv_run qinv_new) simp
  have sl: "running (run bs (new_TaskQueue c)) = int (awaiting_count (run bs (new_TaskQueue c)))"
    for bs :: "'a action list"
  proof -
    have "slack (run bs (new_TaskQueue c :: 'a task_queue)) = 0"
      by (simp only: slack_run slack_new)
    then show ?thesis by (simp add: slack_def)
  qed
  have bound: "int (awaiting_count (run bs (new_TaskQueue c))) \<le> c" for bs :: "'a action list"
    using inv [of bs] sl [of bs] by (simp add: qinv_def)
  have st: "step a (run acts (new_TaskQueue c)) = run (acts @ [a]) (new_TaskQueue c)"
    by (simp add: run_def)
  have his: "\<forall>e \<in> set (history (run acts (new_TaskQueue c))). within_limit c e"
    using inv [of acts] by (simp add: qinv_def list_all_iff)
  have h2: "case e of SlotTaken r \<Rightarrow> r < c \<and> r + 1 \<le> c | SlotFreed r \<Rightarrow> r \<le> c \<and> r - 1 < c"
    if "e \<in> set (history (run acts (new_TaskQueue c)))" for e
    using his [rule_format, OF that] by (cases e) auto
  have "int (awaiting_count (step a (run acts (new_TaskQueue c)))) \<le> c"
    unfolding st by (rule bound)
  then have nostart: "int (awaiting_count (run acts (new_TaskQueue c))) = c \<longrightarrow>
            awaiting_count (step a (run acts (new_TaskQueue c)))
              \<le> awaiting_count (run acts (new_TaskQueue c))"
    by auto
  have con: "concurrency (run acts (new_TaskQueue c)) = c"
    and lim: "running (run acts (new_TaskQueue c)) \<le> c"
    using inv [of acts] by (simp_all add: qinv_def)
  have parked: "step (Wake i) (run acts (new_TaskQueue c)) = run acts (new_TaskQueue c) \<and>
            calls (step (Add j) (run acts (new_TaskQueue c))) =
              calls (run acts (new_TaskQueue c)) @ [(Fn j, Polling)]"
    if "int (awaiting_count (run acts (new_TaskQueue c))) = c"
  proof -
    from that sl [of acts] con
    have "concurrency (run acts (new_TaskQueue c)) \<le> running (run acts (new_TaskQueue c))"
      by simp
    from parked_at_limit [OF this] show ?thesis by blast
  qed
  from bound [of acts] sl [of acts] lim con nostart parked h2 show ?thesis by blast
qed

lemma run_three_adds:
  "run [Add 0, Add 1, Add 2, Settle 0 (Returned ()), Wake 2] (new_TaskQueue 2) =
     \<lparr>concurrency = 2, running = 2, queue = [], stats_total = 3, stats_completed = 1,
      stats_failed = 0, stats_active = 2, paused = False,
      calls = [(Fn 0, Fulfilled ()), (Fn 1, Awaiting 1), (Fn 2, Awaiting 2)],
      history = [SlotTaken 0, SlotTaken 1, SlotFreed 2, SlotTaken 1]\<rparr>"
  by (simp add: run_def new_TaskQueue_def add.simps add_loop.simps add_settle.simps
      processNext.simps settled_def)

theorem running_never_exceeds_limit_witness:
  "(0::int) < 2 \<and>
   awaiting_count (run [Add 0, Add 1, Add 2, Settle 0 (Returned ()), Wake 2] (new_TaskQueue 2)) = 2 \<and>
   running (run [Add 0, Add 1, Add 2, Settle 0 (Returned ()), Wake 2] (new_TaskQueue 2)) = 2 \<and>
   calls (step (Add 3) (run [Add 0, Add 1, Add 2, Settle 0 (Returned ()), Wake 2] (new_TaskQueue 2))) =
     [(Fn 0, Fulfilled ()), (Fn 1, Awaiting 1), (Fn 2, Awaiting 2), (Fn 3, Polling)] \<and>
   history (run [Add 0, Add 1, Add 2, Settle 0 (Returned ()), Wake 2] (new_TaskQueue 2)) =
     [SlotTaken 0, SlotTaken 1, SlotFreed 2, SlotTaken 1]"
proof -
  have a: "awaiting_count (run [Add 0, Add 1, Add 2, Settle 0 (Returned ()), Wake 2]
      (new_TaskQueue 2)) = 2"
    unfolding run_three_adds by (simp add: awaiting_count_def)
  from running_never_exceeds_limit
    [of 2 "[Add 0, Add 1, Add 2, Settle 0 (Returned ()), Wake 2]" "Add 3" 2 3]
  show ?thesis using a by (simp add: run_three_adds [simplified])
qed

text \<open>
  C4, at the input where the code departs from it. A job handed to \<^verbatim>\<open>enqueue\<close> on an
  idle queue of limit 4 is never started: \<^verbatim>\<open>processNext\<close> passes the wrapper object to
  \<^verbatim>\<open>add\<close>, the call \<^verbatim>\<open>task()\<close> throws \<^verbatim>\<open>TypeError\<close>, the queue counts one failure, and the
  promise of that \<^verbatim>\<open>add\<close> is rejected with the \<^verbatim>\<open>TypeError\<close>.
\<close>

theorem enqueue_rejects_with_TypeError:
  "run [Enqueue 0 0] (new_TaskQueue 4 :: unit task_queue) =
     \<lparr>concurrency = 4, running = 0, queue = [], stats_total = 1, stats_completed = 0,
      stats_failed = 1, stats_active = 0, paused = False,
      calls = [(Wrapper 0 0, Rejected TypeError)],
      history = [SlotTaken 0, SlotFreed 1]\<rparr>"
  by (simp add: run_def new_TaskQueue_def enqueue_def add.simps add_loop.simps add_settle.simps
      processNext.simps settled_def)

section \<open>Facts about probing a duration\<close>

text \<open>
  C8, as the code has it. In server.js the cache is looked up first and a hit makes no
  outside call; on a miss the direct probe runs, and when it throws, the first 5 MB are
  downloaded and probed instead; a duration that passes the guard is stored in the
  cache; the call fails exactly when the cache misses and both strategies fail or the
  duration obtained is \<open>0\<close> or \<open>NaN\<close>. The service's own version has no second
  strategy: a failed probe fails the call.
\<close>

theorem getVideoDuration_strategies:
  "(videoCache (''duration:'' @ url) = Some d \<longrightarrow>
      getVideoDuration_server T videoCache url b = (Inr d, videoCache, [])) \<and>
   (videoCache (''duration:'' @ url) = None \<and> ffprobe_url T url = Inr (Num r) \<and> r \<noteq> 0 \<longrightarrow>
      getVideoDuration_server T videoCache url b =
        (Inr r, videoCache(''duration:'' @ url \<mapsto> r), [Probe url])) \<and>
   (videoCache (''duration:'' @ url) = None \<and> ffprobe_url T url = Inl e \<and> curl_sample T url \<and>
    ffprobe_sample T url = Inr (Num r) \<and> r \<noteq> 0 \<longrightarrow>
      getVideoDuration_server T videoCache url b =
        (Inr r, videoCache(''duration:'' @ url \<mapsto> r),
         [Probe url, DownloadSample url, ProbeSample (sample_path b), Unlink (sample_path b)])) \<and>
   ((\<exists>err. fst (getVideoDuration_server T videoCache url b) = Inl err) \<longleftrightarrow>
      videoCache (''duration:'' @ url) = None \<and>
      (case ffprobe_url T url of
         Inr n \<Rightarrow> rejected_duration n
       | Inl e1 \<Rightarrow>
           \<not> curl_sample T url \<or>
           (case ffprobe_sample T url of Inl e2 \<Rightarrow> True | Inr n \<Rightarrow> rejected_duration n))) \<and>
   (rejected_duration n \<longleftrightarrow> n = NaN \<or> n = Num 0) \<and>
   (cache_get (''duration:'' @ url) cs = None \<and> validateUrl (lib E) url = Inr ok \<and>
    ffprobe E url = Inl e \<longrightarrow>
      getVideoDuration E cs url =
        (Inl (if e = ProbeTimeout then ProbeTimeout else DurationUnavailable), cs, [Probe url]))"
  by (auto simp: getVideoDuration_server_def getVideoDuration_def finish_duration_def
      rejected_duration_def Let_def split: option.splits sum.splits jsnum.splits)

theorem getVideoDuration_strategies_witness:
  "getVideoDuration_server demo_tools empty_cache ''http://media.example.org/a.mp4'' ''a'' =
     (Inr 120, empty_cache(''duration:http://media.example.org/a.mp4'' \<mapsto> 120),
      [Probe ''http://media.example.org/a.mp4'']) \<and>
   getVideoDuration_server demo_tools empty_cache ''http://media.example.org/b.mp4'' ''b'' =
     (Inr 300, empty_cache(''duration:http://media.example.org/b.mp4'' \<mapsto> 300),
      [Probe ''http://media.example.org/b.mp4'', DownloadSample ''http://media.example.org/b.mp4'',
       ProbeSample (sample_path ''b''), Unlink (sample_path ''b'')]) \<and>
   (\<exists>err. fst (getVideoDuration_server demo_tools empty_cache
                 ''http://media.example.org/c.mp4'' ''c'') = Inl err)"
proof (intro conjI)
  show "getVideoDuration_server demo_tools empty_cache ''http://media.example.org/a.mp4'' ''a'' =
     (Inr 120, empty_cache(''duration:http://media.example.org/a.mp4'' \<mapsto> 120),
      [Probe ''http://media.example.org/a.mp4''])"
    using getVideoDuration_strategies [of empty_cache "''http://media.example.org/a.mp4''"
        _ demo_tools "''a''" 120]
    by (simp add: demo_tools_def empty_cache_def)
  show "getVideoDuration_server demo_tools empty_cache ''http://media.example.org/b.mp4'' ''b'' =
     (Inr 300, empty_cache(''duration:http://media.example.org/b.mp4'' \<mapsto> 300),
      [Probe ''http://media.example.org/b.mp4'', DownloadSample ''http://media.example.org/b.mp4'',
       ProbeSample (sample_path ''b''), Unlink (sample_path ''b'')])"
    using getVideoDuration_strategies [of empty_cache "''http://media.example.org/b.mp4''"
        _ demo_tools "''b''" 300 "External ''ffprobe: exit 1''"]
    by (simp add: demo_tools_def empty_cache_def)
  show "\<exists>err. fst (getVideoDuration_server demo_tools empty_cache
                 ''http://media.example.org/c.mp4'' ''c'') = Inl err"
    using getVideoDuration_strategies [of empty_cache "''http://media.example.org/c.mp4''"
        _ demo_tools "''c''"]
    by (simp add: demo_tools_def empty_cache_def)
qed

text \<open>
  A probe that reports \<open>- 5\<close> seconds passes the guard: the call returns the negative
  duration instead of failing.
\<close>

theorem getVideoDuration_negative_counterexample:
  "fst (getVideoDuration_server demo_tools empty_cache ''http://media.example.org/neg.mp4'' ''neg'')
     = Inr (- 5)"
  by (simp add: getVideoDuration_server_def finish_duration_def demo_tools_def empty_cache_def)

section \<open>Facts about the per-job processor\<close>

lemma toLowerCase_append: "toLowerCase (x @ y) = toLowerCase x @ toLowerCase y"
  by (simp add: toLowerCase_def)

lemma includes_prefix: "str_includes (p @ s) p"
proof -
  have "p @ s = [] @ p @ s" by simp
  then show ?thesis unfolding includes_iff by blast
qed

lemma octet_10: "octet 10 = ''10''" by code_simp
lemma octet_127: "octet 127 = ''127''" by code_simp
lemma octet_0: "octet 0 = ''0''" by code_simp
lemma octet_1: "octet 1 = ''1''" by code_simp
lemma octet_Suc_0: "octet (Suc 0) = ''1''" using octet_1 by simp
lemma octet_169: "octet 169 = ''169''" by code_simp
lemma octet_254: "octet 254 = ''254''" by code_simp
lemma octet_192: "octet 192 = ''192''" by code_simp
lemma octet_168: "octet 168 = ''168''" by code_simp
lemma octet_172: "octet 172 = ''172''" by code_simp
lemma octet_16: "octet 16 = ''16''" by code_simp

lemma claimed_range_blocked:
  assumes "claimed_range a b c d"
  shows "matchBlocked (toLowerCase (ipv4 a b c d)) blockedPatterns"
proof -
  have pre: "matchBlocked (toLowerCase (p @ s)) blockedPatterns"
    if "p \<in> set blockedPatterns" and "toLowerCase p = p" for p s
  proof -
    have "str_includes (toLowerCase (p @ s)) p"
      using that(2) includes_prefix [of p "toLowerCase s"] by (simp add: toLowerCase_append)
    with that(1) show ?thesis unfolding matchBlocked_iff by blast
  qed
  from assms consider
      "a = 127 \<and> b = 0 \<and> c = 0 \<and> d = 1" | "a = 169 \<and> b = 254" | "a = 10"
    | "a = 192 \<and> b = 168" | "a = 172 \<and> b = 16"
    unfolding claimed_range_def by blast
  then show ?thesis
  proof cases
    case 1
    have "ipv4 a b c d = ''127.0.0.1'' @ []"
      using 1 by (simp add: ipv4_def octet_127 octet_0 octet_Suc_0)
    then show ?thesis
      using pre [of "''127.0.0.1''" "[]"]
      by (simp add: blockedPatterns_def toLowerCase_def lower_char_def)
  next
    case 2
    have "ipv4 a b c d = ''169.254'' @ (''.'' @ octet c @ ''.'' @ octet d)"
      using 2 by (simp add: ipv4_def octet_169 octet_254)
    then show ?thesis
      using pre [of "''169.254''" "''.'' @ octet c @ ''.'' @ octet d"]
      by (simp add: blockedPatterns_def toLowerCase_def lower_char_def)
  next
    case 3
    have "ipv4 a b c d = ''10.'' @ (octet b @ ''.'' @ octet c @ ''.'' @ octet d)"
      using 3 by (simp add: ipv4_def octet_10)
    then show ?thesis
      using pre [of "''10.''" "octet b @ ''.'' @ octet c @ ''.'' @ octet d"]
      by (simp add: blockedPatterns_def toLowerCase_def lower_char_def)
  next
    case 4
    have "ipv4 a b c d = ''192.168'' @ (''.'' @ octet c @ ''.'' @ octet d)"
      using 4 by (simp add: ipv4_def octet_192 octet_168)
    then show ?thesis
      using pre [of "''192.168''" "''.'' @ octet c @ ''.'' @ octet d"]
      by (simp add: blockedPatterns_def toLowerCase_def lower_char_def)
  next
    case 5
    have "ipv4 a b c d = ''172.16'' @ (''.'' @ octet c @ ''.'' @ octet d)"
      using 5 by (simp add: ipv4_def octet_172 octet_16)
    then show ?thesis
      using pre [of "''172.16''" "''.'' @ octet c @ ''.'' @ octet d"]
      by (simp add: blockedPatterns_def toLowerCase_def lower_char_def)
  qed
qed

lemma validateUrl_claimed_range:
  assumes "lib_hostname L url = Some (ipv4 a b c d)" and "claimed_range a b c d"
  shows "\<exists>e. validateUrl L url = Inl e"
  using validateUrl_blocked [OF assms(1) claimed_range_blocked [OF assms(2)]] by blast

text \<open>
  A job whose path passes the path check, that is not skipped for an existing cover,
  and whose source file holds a URL with the dotted-quad host \<open>127.0.0.1\<close>,
  \<open>169.254.x.x\<close>, \<open>10.x.x.x\<close>, \<open>192.168.x.x\<close> or \<open>172.16.x.x\<close>: URL validation rejects
  the URL, the job returns a failure carrying that error, the cache is untouched, and
  no call of the job reaches the network.
\<close>

lemma dotted_quad_fails_before_network:
  assumes path: "validatePath E strmFile = Inr safeStrmFile"
    and noskip: "\<not> (coverMode cfg = ''1'' \<and>
        fs_access E (output_thumb E cfg (path_basename_ext E strmFile ''.strm'') (path_dirname E strmFile)))"
    and read: "fs_readFile E safeStrmFile = Inr body"
    and host: "lib_hostname (lib E) (trim body) = Some (ipv4 a b c d)"
    and range: "claimed_range a b c d"
  shows "\<exists>e logs effs.
           validateUrl (lib E) (trim body) = Inl e \<and>
           processVideo E cfg cs strmFile =
             (Returned \<lparr>res_success = False, res_skipped = False, res_error = Some e\<rparr>,
              logs, effs, cs) \<and>
           \<not> list_ex is_network effs"
proof -
  from validateUrl_claimed_range [OF host range]
  obtain e where e: "validateUrl (lib E) (trim body) = Inl e" by blast
  have "try_block E cfg cs (path_basename_ext E strmFile ''.strm'') (path_dirname E strmFile) safeStrmFile =
          (Inl e, [],
           (if coverMode cfg = ''1''
            then [FsAccess (output_thumb E cfg (path_basename_ext E strmFile ''.strm'') (path_dirname E strmFile))]
            else []) @ [FsReadFile safeStrmFile], cs)"
    using noskip read e by (simp add: try_block_def Let_def)
  then have "processVideo E cfg cs strmFile =
      (Returned \<lparr>res_success = False, res_skipped = False, res_error = Some e\<rparr>,
       [(Failure (path_basename_ext E strmFile ''.strm'') e, ErrorLevel)],
       (if coverMode cfg = ''1''
            then [FsAccess (output_thumb E cfg (path_basename_ext E strmFile ''.strm'') (path_dirname E strmFile))]
            else []) @ [FsReadFile safeStrmFile], cs)"
    using path by (simp add: processVideo_def Let_def)
  with e show ?thesis by auto
qed
lemma demo_skip:
  "processVideo demo_env demo_config new_CacheService ''/media/movie.strm'' =
     (Returned \<lparr>res_success = True, res_skipped = True, res_error = None\<rparr>,
      [(SkipExisting ''movie'', Info)], [FsAccess ''/media/movie.jpg''], new_CacheService)"
  by (simp add: processVideo_def try_block_def validatePath_def demo_env_def demo_config_def
      output_thumb_def blockedPaths_def startsWith_def Let_def)

lemma mapped_url_accepted:
  "validateUrl ipv6_lib ''http://[::ffff:127.0.0.1]/a.mp4'' = Inr True"
  by (simp add: validateUrl_def ipv6_lib_def blockedPatterns_def toLowerCase_def lower_char_def)

lemma mapped_trim:
  "trim ''http://[::ffff:127.0.0.1]/a.mp4'' = ''http://[::ffff:127.0.0.1]/a.mp4''"
  by (simp add: trim_def strip_start_stop white_space_def)

lemma mapped_try_block:
  "try_block mapped_env demo_config new_CacheService ''movie'' ''/media'' ''/media/movie.strm'' =
     (Inr \<lparr>res_success = True, res_skipped = False, res_error = None\<rparr>,
      [(StartProcessing ''movie'', Info), (FetchingInfo, Info), (GeneratingCover, Info),
       (NfoWritten ''movie.nfo'', Info), (Succeeded ''movie'', Info)],
      [FsAccess ''/media/movie.jpg'', FsReadFile ''/media/movie.strm'',
       HttpHead ''http://[::ffff:127.0.0.1]/a.mp4'', Probe ''http://[::ffff:127.0.0.1]/a.mp4'',
       Render ''http://[::ffff:127.0.0.1]/a.mp4'', WriteNfo ''/media/movie.nfo''],
      cache_set ''duration:http://[::ffff:127.0.0.1]/a.mp4'' 120 new_CacheService)"
  by (simp add: try_block_def pipeline_tail_def checkVideoUrl_def getVideoDuration_def
      generateThumbnail_def generateNFO_def validatePath_def output_thumb_def
      position_or_middle_def mapped_env_def demo_env_def demo_config_def mapped_url_accepted
      mapped_trim blockedPaths_def startsWith_def cache_get_def new_CacheService_def Let_def)

text \<open>
  C6, at the input where the code departs from it. The source file holds
  \<open>http://[::ffff:127.0.0.1]/a.mp4\<close>, the loopback address 127.0.0.1 in its IPv4-mapped
  form. Its host name \<open>[::ffff:7f00:1]\<close> contains none of the blocked patterns, so URL
  validation accepts it, and the job goes on to the reachability check, the probe and
  the extraction against the loopback address and ends as a success.
\<close>

theorem mapped_loopback_reaches_network:
  "validateUrl (lib mapped_env) ''http://[::ffff:127.0.0.1]/a.mp4'' = Inr True \<and>
   fst (processVideo mapped_env demo_config new_CacheService ''/media/movie.strm'') =
     Returned \<lparr>res_success = True, res_skipped = False, res_error = None\<rparr> \<and>
   fst (snd (snd (processVideo mapped_env demo_config new_CacheService ''/media/movie.strm''))) =
     [FsAccess ''/media/movie.jpg'', FsReadFile ''/media/movie.strm'',
      HttpHead ''http://[::ffff:127.0.0.1]/a.mp4'', Probe ''http://[::ffff:127.0.0.1]/a.mp4'',
      Render ''http://[::ffff:127.0.0.1]/a.mp4'', WriteNfo ''/media/movie.nfo'']"
proof -
  have l: "lib mapped_env = ipv6_lib" by (simp add: mapped_env_def)
  have v: "validatePath mapped_env ''/media/movie.strm'' = Inr ''/media/movie.strm''"
    by (simp add: validatePath_def mapped_env_def demo_env_def blockedPaths_def startsWith_def)
  have b: "path_basename_ext mapped_env ''/media/movie.strm'' ''.strm'' = ''movie''"
    and d: "path_dirname mapped_env ''/media/movie.strm'' = ''/media''"
    by (simp_all add: mapped_env_def demo_env_def)
  show ?thesis
    by (simp add: l mapped_url_accepted processVideo_def v b d mapped_try_block Let_def)
qed

section \<open>Facts about the batch orchestrator\<close>

lemma filter_update_same:
  "i < length xs \<Longrightarrow> P (xs ! i) = P y \<Longrightarrow>
     length (filter P (xs[i := y])) = length (filter P xs)"
proof (induction xs arbitrary: i)
  case Nil
  then show ?case by simp
next
  case (Cons x xs)
  then show ?case by (cases i) auto
qed

lemma filter_update_gain:
  "i < length xs \<Longrightarrow> \<not> P (xs ! i) \<Longrightarrow> P y \<Longrightarrow>
     length (filter P (xs[i := y])) = Suc (length (filter P xs))"
proof (induction xs arbitrary: i)
  case Nil
  then show ?case by simp
next
  case (Cons x xs)
  then show ?case by (cases i) auto
qed

lemma filter_all: "list_all P xs \<Longrightarrow> length (filter P xs) = length xs"
  by (induction xs) auto
lemma processNext_idle: "queue q = [] \<Longrightarrow> processNext q = q"
  by (simp add: processNext.simps)

lemma add_loop_Fn:
  "add_loop i (Fn j) q =
     (if concurrency q \<le> running q then q
      else q\<lparr>running := running q + 1, history := history q @ [SlotTaken (running q)],
             stats_active := running q + 1, calls := (calls q)[i := (Fn j, Awaiting j)]\<rparr>)"
  by (simp add: add_loop.simps Let_def)

lemma add_settle_idle:
  assumes "queue q = []"
  shows "queue (add_settle i t out q) = []"
    and "calls (add_settle i t out q) = (calls q)[i := (t, settled out)]"
  using assms
  by (simp_all add: add_settle.simps Let_def processNext_idle split: outcome.splits)

lemma list_all_update: "list_all P xs \<Longrightarrow> P y \<Longrightarrow> list_all P (xs[i := y])"
  by (induction xs arbitrary: i) (auto split: nat.splits)

lemma add_loop_keeps:
  assumes "only_functions q" and "i < length (calls q)" and "\<not> is_fulfilled (snd (calls q ! i))"
  shows "only_functions (add_loop i (Fn j) q)"
    and "fulfilled_count (add_loop i (Fn j) q) = fulfilled_count q"
    and "length (calls (add_loop i (Fn j) q)) = length (calls q)"
  using assms
  by (auto simp: add_loop_Fn only_functions_def fulfilled_count_def list_all_update
      filter_update_same)

lemma add_Fn_keeps:
  assumes "only_functions q"
  shows "only_functions (add (Fn j) q)"
    and "fulfilled_count (add (Fn j) q) = fulfilled_count q"
    and "length (calls (add (Fn j) q)) = Suc (length (calls q))"
proof -
  define q1 where "q1 = q\<lparr>stats_total := stats_total q + 1, calls := calls q @ [(Fn j, Polling)]\<rparr>"
  have a: "add (Fn j) q = add_loop (length (calls q)) (Fn j) q1"
    by (simp add: add.simps q1_def)
  have o1: "only_functions q1" using assms by (simp add: only_functions_def q1_def)
  have l1: "length (calls q) < length (calls q1)" by (simp add: q1_def)
  have n1: "\<not> is_fulfilled (snd (calls q1 ! length (calls q)))" by (simp add: q1_def)
  have f1: "fulfilled_count q1 = fulfilled_count q" by (simp add: fulfilled_count_def q1_def)
  show "only_functions (add (Fn j) q)" unfolding a by (rule add_loop_keeps(1) [OF o1 l1 n1])
  show "fulfilled_count (add (Fn j) q) = fulfilled_count q"
    unfolding a using add_loop_keeps(2) [OF o1 l1 n1] f1 by simp
  show "length (calls (add (Fn j) q)) = Suc (length (calls q))"
    unfolding a using add_loop_keeps(3) [OF o1 l1 n1] by (simp add: q1_def)
qed

lemma fold_add_keeps:
  assumes "only_functions q"
  shows "only_functions (fold (\<lambda>j. add (Fn j)) js q) \<and>
         fulfilled_count (fold (\<lambda>j. add (Fn j)) js q) = fulfilled_count q \<and>
         length (calls (fold (\<lambda>j. add (Fn j)) js q)) = length (calls q) + length js"
  using assms
proof (induction js arbitrary: q)
  case Nil
  then show ?case by simp
next
  case (Cons j js)
  from Cons.IH [OF add_Fn_keeps(1) [OF Cons.prems]] add_Fn_keeps(2,3) [OF Cons.prems]
  show ?case by simp
qed
lemma wake_cases:
  assumes "only_functions q"
  shows "step (Wake i) q = q \<or>
         (\<exists>j. i < length (calls q) \<and> \<not> is_fulfilled (snd (calls q ! i)) \<and>
              step (Wake i) q = add_loop i (Fn j) q)"
proof (cases "i < length (calls q) \<and> snd (calls q ! i) = Polling")
  case True
  then have "case fst (calls q ! i) of Fn j \<Rightarrow> True | Wrapper j p \<Rightarrow> False"
    using assms by (simp add: only_functions_def list_all_length)
  then obtain j where "fst (calls q ! i) = Fn j" by (cases "fst (calls q ! i)") auto
  with True have "step (Wake i) q = add_loop i (Fn j) q" by simp
  moreover have "\<not> is_fulfilled (snd (calls q ! i))" using True by simp
  ultimately show ?thesis using True by blast
next
  case False
  then show ?thesis by auto
qed

lemma wake_keeps:
  assumes "only_functions q"
  shows "only_functions (step (Wake i) q)"
    and "fulfilled_count (step (Wake i) q) = fulfilled_count q"
    and "length (calls (step (Wake i) q)) = length (calls q)"
  using wake_cases [OF assms, of i] assms
  by (auto simp del: step.simps simp: add_loop_keeps)

lemma settle_keeps:
  assumes "only_functions q" and "i < length (calls q)" and "is_awaiting (snd (calls q ! i))"
  shows "only_functions (add_settle i (Fn k) out q)"
    and "length (calls (add_settle i (Fn k) out q)) = length (calls q)"
    and "fulfilled_count (add_settle i (Fn k) (Returned v) q) = Suc (fulfilled_count q)"
    and "fulfilled_count (add_settle i (Fn k) (Threw e) q) = fulfilled_count q"
proof -
  have q: "queue q = []" using assms(1) by (simp add: only_functions_def)
  have nf: "\<not> is_fulfilled (snd (calls q ! i))"
    using assms(3) by (cases "snd (calls q ! i)") auto
  show "only_functions (add_settle i (Fn k) out q)"
    using assms(1) by (simp add: only_functions_def add_settle_idle [OF q] list_all_update)
  show "length (calls (add_settle i (Fn k) out q)) = length (calls q)"
    by (simp add: add_settle_idle [OF q])
  show "fulfilled_count (add_settle i (Fn k) (Returned v) q) = Suc (fulfilled_count q)"
    using assms(2) nf
    by (simp add: fulfilled_count_def add_settle_idle [OF q] settled_def filter_update_gain)
  show "fulfilled_count (add_settle i (Fn k) (Threw e) q) = fulfilled_count q"
    using assms(2) nf
    by (simp add: fulfilled_count_def add_settle_idle [OF q] settled_def filter_update_same)
qed
lemma fulfilled_count_le: "fulfilled_count q \<le> length (calls q)"
  by (simp add: fulfilled_count_def)

lemma binv_promise_all: "binv ns n s \<Longrightarrow> binv ns n (promise_all s)"
proof -
  assume inv: "binv ns n s"
  show ?thesis
  proof (cases "handler s = Waiting \<and> list_all (\<lambda>call. is_fulfilled (snd call)) (calls (tq s))")
    case True
    then have "fulfilled_count (tq s) = length (calls (tq s))"
      by (simp add: fulfilled_count_def filter_all)
    with inv have "processed (progress s) = total (progress s)"
      by (simp add: binv_def counters_ok_def)
    with inv True show ?thesis
      by (simp add: promise_all_def binv_def)
  next
    case False
    with inv show ?thesis by (auto simp: promise_all_def)
  qed
qed

lemma binv_task_continuation:
  assumes inv: "binv ns n s" and lt: "fulfilled_count (tq s) < n"
    and ns: "ns \<longrightarrow> \<not> (res_success r \<and> res_skipped r)"
    and q1: "only_functions q'" and q2: "length (calls q') = n"
    and q3: "fulfilled_count q' = Suc (fulfilled_count (tq s))"
  shows "binv ns n ((task_continuation f r s)\<lparr>tq := q'\<rparr>)"
  using inv lt ns q1 q2 q3
  by (auto simp: task_continuation_def binv_def counters_ok_def Let_def)

lemma tq_task_continuation: "tq (task_continuation f r s) = tq s"
  by (simp add: task_continuation_def Let_def)

lemma binv_ostep: "binv ns n s \<Longrightarrow> binv ns n (ostep a s)"
proof (cases a)
  case (Tick i)
  assume inv: "binv ns n s"
  then have "only_functions (tq s)" by (simp add: binv_def)
  from wake_keeps [OF this, of i] inv Tick show ?thesis
    by (simp add: binv_def del: step.simps)
next
  case (Advance i)
  assume inv: "binv ns n s"
  show ?thesis
  proof (cases "i < length (calls (tq s)) \<and> i < length (files s) \<and> i < length (todo s) \<and>
         is_awaiting (snd (calls (tq s) ! i))")
    case False
    with inv Advance show ?thesis by auto
  next
    case True
    obtain ls out where td: "todo s ! i = (ls, out)" by (cases "todo s ! i")
    have of: "only_functions (tq s)" using inv by (simp add: binv_def)
    have il: "i < length (calls (tq s))" and aw: "is_awaiting (snd (calls (tq s) ! i))"
      using True by auto
    show ?thesis
    proof (cases ls)
      case (Cons l ls')
      have "\<not> skips (ls', out)" if "\<not> skips (todo s ! i)"
        using that td by (simp add: skips_def)
      moreover have "ns \<longrightarrow> \<not> skips (todo s ! i)"
        using inv True by (auto simp: binv_def list_all_length)
      ultimately have "ns \<longrightarrow> list_all (\<lambda>b. \<not> skips b) ((todo s)[i := (ls', out)])"
        using inv by (auto simp: binv_def list_all_update)
      with inv True Advance td Cons show ?thesis
        by (simp add: binv_def)
    next
      case Nil
      show ?thesis
      proof (cases out)
        case (Returned r)
        define q' where "q' = add_settle i (Fn i) (Returned ()) (tq s)"
        have q1: "only_functions q'" and q2: "length (calls q') = n"
          and q3: "fulfilled_count q' = Suc (fulfilled_count (tq s))"
          using settle_keeps [OF of il aw] inv by (simp_all add: q'_def binv_def)
        have "fulfilled_count q' \<le> n" using fulfilled_count_le [of q'] q2 by simp
        then have lt: "fulfilled_count (tq s) < n" using q3 by simp
        have "ns \<longrightarrow> \<not> skips (todo s ! i)"
          using inv True by (auto simp: binv_def list_all_length)
        then have nsr: "ns \<longrightarrow> \<not> (res_success r \<and> res_skipped r)"
          using td Returned by (simp add: skips_def)
        have "binv ns n ((task_continuation (files s ! i) r s)\<lparr>tq := q'\<rparr>)"
          by (rule binv_task_continuation [OF inv lt nsr q1 q2 q3])
        then have "binv ns n (promise_all ((task_continuation (files s ! i) r s)\<lparr>tq := q'\<rparr>))"
          by (rule binv_promise_all)
        then show ?thesis
          using True Advance td Nil Returned
          by (simp add: settle_job_def Let_def q'_def tq_task_continuation)
      next
        case (Threw e)
        define q' where "q' = add_settle i (Fn i) (Threw e) (tq s)"
        have q1: "only_functions q'" and q2: "length (calls q') = n"
          and q3: "fulfilled_count q' = fulfilled_count (tq s)"
          using settle_keeps [OF of il aw] inv by (simp_all add: q'_def binv_def)
        then have "binv ns n (s\<lparr>tq := q', handler := h\<rparr>)" for h
          using inv by (simp add: binv_def)
        then show ?thesis
          using True Advance td Nil Threw
          by (simp add: settle_job_def Let_def q'_def)
      qed
    qed
  qed
qed

lemma binv_exec: "binv ns n s \<Longrightarrow> binv ns n (exec acts s)"
  unfolding exec_def by (induction acts arbitrary: s) (auto simp: binv_ostep)

lemma binv_runBatch:
  assumes "ns \<longrightarrow> (\<forall>i < length fs. \<not> skips (beh i))"
  shows "binv ns (length fs) (runBatch sys cfg fs beh)"
proof -
  define c where "c = resolve_concurrency sys cfg (length fs)"
  define q0 :: "unit task_queue" where "q0 = new_TaskQueue \<lfloor>c\<rfloor>"
  define s1 where "s1 = \<lparr>files = fs, tq = fold (\<lambda>j. add (Fn j)) [0..<length fs] q0,
                progress = \<lparr>total = length fs, processed = 0, success = 0, failed = 0\<rparr>,
                failedFiles = [],
                events = [Log (Announce \<lfloor>c\<rfloor> (length fs)) Info],
                todo = map beh [0..<length fs],
                handler = Waiting\<rparr>"
  have r: "runBatch sys cfg fs beh = promise_all s1"
    by (simp add: runBatch_def Let_def s1_def q0_def c_def)
  have "only_functions q0" and "fulfilled_count q0 = 0" and "calls q0 = []"
    by (simp_all add: q0_def new_TaskQueue_def only_functions_def fulfilled_count_def)
  with fold_add_keeps [of q0 "[0..<length fs]"]
  have "only_functions (tq s1)" "fulfilled_count (tq s1) = 0" "length (calls (tq s1)) = length fs"
    by (simp_all add: s1_def)
  moreover have "ns \<longrightarrow> list_all (\<lambda>b. \<not> skips b) (map beh [0..<length fs])"
    using assms by (auto simp: list_all_iff)
  ultimately have "binv ns (length fs) s1"
    by (simp add: binv_def counters_ok_def s1_def)
  then show ?thesis unfolding r by (rule binv_promise_all)
qed

text \<open>
  Whatever the jobs do and in whatever order they are resumed, every progress snapshot
  of a batch has \<open>succeeded + failed \<le> processed \<le> total\<close> with \<open>total\<close> the number of
  files, and \<open>processed = succeeded + failed\<close> when no job of the batch is skipped; in a
  complete event \<open>processed = total\<close>.
\<close>

lemma progress_snapshots_bounds:
  "(\<forall>p. ProgressEvent p \<in> set (events (exec acts (runBatch sys cfg fs beh))) \<longrightarrow>
        total p = length fs \<and> success p + failed p \<le> processed p \<and> processed p \<le> total p \<and>
        ((\<forall>i < length fs. \<not> skips (beh i)) \<longrightarrow> processed p = success p + failed p)) \<and>
   (\<forall>p ff. Complete p ff \<in> set (events (exec acts (runBatch sys cfg fs beh))) \<longrightarrow>
        processed p = total p \<and> total p = length fs)"
proof -
  define ns where "ns \<longleftrightarrow> (\<forall>i < length fs. \<not> skips (beh i))"
  have "binv ns (length fs) (exec acts (runBatch sys cfg fs beh))"
    by (intro binv_exec binv_runBatch) (simp add: ns_def)
  then have ev: "\<forall>e \<in> set (events (exec acts (runBatch sys cfg fs beh))). event_ok ns (length fs) e"
    by (simp add: binv_def list_all_iff)
  show ?thesis
  proof (intro conjI allI impI)
    fix p assume "ProgressEvent p \<in> set (events (exec acts (runBatch sys cfg fs beh)))"
    with ev have ok: "counters_ok ns (length fs) p" by fastforce
    then show "total p = length fs" "success p + failed p \<le> processed p" "processed p \<le> total p"
      by (simp_all add: counters_ok_def)
    assume "\<forall>i < length fs. \<not> skips (beh i)"
    with ok show "processed p = success p + failed p" by (simp add: counters_ok_def ns_def)
  next
    fix p ff assume "Complete p ff \<in> set (events (exec acts (runBatch sys cfg fs beh)))"
    with ev have "event_ok ns (length fs) (Complete p ff)" by blast
    then show "processed p = total p" "total p = length fs" by (simp_all add: counters_ok_def)
  qed
qed
lemma skip_job_eq:
  "skip_job i = ([(SkipExisting ''movie'', Info)],
      Returned \<lparr>res_success = True, res_skipped = True, res_error = None\<rparr>)"
  by (simp add: skip_job_def demo_skip behaviour_of_def)

lemma demo_system_path:
  "processVideo demo_env demo_config new_CacheService ''/etc/passwd.strm'' =
     (Threw SystemDirectory, [], [], new_CacheService)"
  by (simp add: processVideo_def validatePath_def demo_env_def blockedPaths_def startsWith_def
      Let_def)

lemma system_path_job_eq: "system_path_job i = ([], Threw SystemDirectory)"
  by (simp add: system_path_job_def demo_system_path behaviour_of_def)

lemma concurrency_small: "\<lfloor>resolve_concurrency default_sys demo_config 1\<rfloor> = 2"
  by (simp add: resolve_concurrency_def default_sys_def demo_config_def)

lemma runBatch_one:
  "runBatch default_sys demo_config [f] beh =
     \<lparr>files = [f],
      tq = \<lparr>concurrency = 2, running = 1, queue = [], stats_total = 1, stats_completed = 0,
            stats_failed = 0, stats_active = 1, paused = False,
            calls = [(Fn 0, Awaiting 0)], history = [SlotTaken 0]\<rparr>,
      progress = \<lparr>total = 1, processed = 0, success = 0, failed = 0\<rparr>,
      failedFiles = [],
      events = [Log (Announce 2 1) Info],
      todo = [beh 0],
      handler = Waiting\<rparr>"
  by (simp add: runBatch_def Let_def resolve_concurrency_def default_sys_def demo_config_def
      new_TaskQueue_def add.simps add_loop.simps promise_all_def)

text \<open>
  C1, at the input where the code departs from it. A batch of one file whose cover
  exists, in skip-existing mode: the job is skipped, the closure raises \<open>processed\<close>
  and leaves \<open>succeeded\<close> alone, and both the progress snapshot and the complete event
  carry \<open>processed = 1\<close> with \<open>succeeded = 0\<close> and \<open>failed = 0\<close>.
\<close>

theorem skipped_job_not_counted:
  "events (exec [Advance 0, Advance 0]
      (runBatch default_sys demo_config [''/media/movie.strm''] skip_job)) =
     [Log (Announce 2 1) Info, Log (SkipExisting ''movie'') Info,
      ProgressEvent \<lparr>total = 1, processed = 1, success = 0, failed = 0\<rparr>,
      Complete \<lparr>total = 1, processed = 1, success = 0, failed = 0\<rparr> []]"
  by (simp add: runBatch_one exec_def skip_job_eq settle_job_def task_continuation_def Let_def
      add_settle.simps processNext.simps settled_def promise_all_def)

lemma blocked_start:
  "runBatch default_sys demo_config [''/etc/passwd.strm''] system_path_job =
     aborted_batch\<lparr>tq := \<lparr>concurrency = 2, running = 1, queue = [], stats_total = 1,
            stats_completed = 0, stats_failed = 0, stats_active = 1, paused = False,
            calls = [(Fn 0, Awaiting 0)], history = [SlotTaken 0]\<rparr>, handler := Waiting\<rparr>"
  by (simp add: runBatch_one system_path_job_eq aborted_batch_def)

lemma blocked_step_start:
  "ostep a (runBatch default_sys demo_config [''/etc/passwd.strm''] system_path_job) =
     (if a = Advance 0 then aborted_batch
      else runBatch default_sys demo_config [''/etc/passwd.strm''] system_path_job)"
proof (cases a)
  case (Tick i)
  then show ?thesis
    by (cases "i = 0") (simp_all add: blocked_start aborted_batch_def)
next
  case (Advance i)
  then show ?thesis
    by (cases "i = 0")
      (simp_all add: blocked_start aborted_batch_def settle_job_def Let_def add_settle.simps
        processNext.simps settled_def)
qed

lemma blocked_step_aborted: "ostep a aborted_batch = aborted_batch"
proof (cases a)
  case (Tick i)
  then show ?thesis by (cases "i = 0") (simp_all add: aborted_batch_def)
next
  case (Advance i)
  then show ?thesis by (cases "i = 0") (simp_all add: aborted_batch_def)
qed

lemma blocked_exec_aborted: "exec acts aborted_batch = aborted_batch"
  unfolding exec_def by (induction acts) (simp_all add: blocked_step_aborted)

lemma blocked_exec:
  "exec acts (runBatch default_sys demo_config [''/etc/passwd.strm''] system_path_job) = aborted_batch \<or>
   exec acts (runBatch default_sys demo_config [''/etc/passwd.strm''] system_path_job) =
     runBatch default_sys demo_config [''/etc/passwd.strm''] system_path_job"
proof (induction acts)
  case Nil
  show ?case by (simp add: exec_def)
next
  case (Cons a acts)
  have "exec (a # acts) s = exec acts (ostep a s)" for s by (simp add: exec_def)
  with Cons show ?case
    by (simp add: blocked_step_start blocked_exec_aborted)
qed

text \<open>
  C3, at the input where the code departs from it. For the batch of the single file
  \<open>/etc/passwd.strm\<close> the processor throws at its path check, outside its \<^verbatim>\<open>try\<close>; the
  task is rejected, \<^verbatim>\<open>Promise.all\<close> is rejected, and under every schedule the stream
  holds no complete event.
\<close>

theorem blocked_path_never_completes:
  "processVideo demo_env demo_config new_CacheService ''/etc/passwd.strm'' =
     (Threw SystemDirectory, [], [], new_CacheService) \<and>
   handler (exec [Advance 0]
     (runBatch default_sys demo_config [''/etc/passwd.strm''] system_path_job)) =
     Aborted SystemDirectory \<and>
   (\<forall>acts p ff. Complete p ff \<notin> set (events (exec acts
     (runBatch default_sys demo_config [''/etc/passwd.strm''] system_path_job))))"
proof (intro conjI allI)
  show "processVideo demo_env demo_config new_CacheService ''/etc/passwd.strm'' =
     (Threw SystemDirectory, [], [], new_CacheService)"
    by (rule demo_system_path)
  show "handler (exec [Advance 0]
     (runBatch default_sys demo_config [''/etc/passwd.strm''] system_path_job)) =
     Aborted SystemDirectory"
    by (simp add: exec_def blocked_step_start aborted_batch_def)
  fix acts p ff
  show "Complete p ff \<notin> set (events (exec acts
     (runBatch default_sys demo_config [''/etc/passwd.strm''] system_path_job)))"
    using blocked_exec [of acts] by (auto simp: aborted_batch_def blocked_start)
qed

lemma empty_batch_start:
  "runBatch sys cfg [] beh =
     \<lparr>files = [], tq = new_TaskQueue \<lfloor>resolve_concurrency sys cfg 0\<rfloor>,
      progress = \<lparr>total = 0, processed = 0, success = 0, failed = 0\<rparr>,
      failedFiles = [],
      events = [Log (Announce \<lfloor>resolve_concurrency sys cfg 0\<rfloor> 0) Info,
                Complete \<lparr>total = 0, processed = 0, success = 0, failed = 0\<rparr> []],
      todo = [], handler = Ended\<rparr>"
  by (simp add: runBatch_def Let_def promise_all_def new_TaskQueue_def)

lemma empty_batch_step: "ostep a (runBatch sys cfg [] beh) = runBatch sys cfg [] beh"
  by (cases a) (simp_all add: empty_batch_start new_TaskQueue_def)

lemma empty_batch_exec: "exec acts (runBatch sys cfg [] beh) = runBatch sys cfg [] beh"
  unfolding exec_def by (induction acts) (simp_all add: empty_batch_step)

text \<open>
  C5, as the code has it. An empty batch yields, at once and whatever happens later,
  one log event announcing the resolved concurrency (the request's or the default,
  clamped to the configured minimum) and zero files, followed by one complete event
  with all counters zero and an empty failed list; no progress or failed event.
\<close>

theorem empty_batch_events:
  "events (exec acts (runBatch sys cfg [] beh)) =
     [Log (Announce \<lfloor>resolve_concurrency sys cfg 0\<rfloor> 0) Info,
      Complete \<lparr>total = 0, processed = 0, success = 0, failed = 0\<rparr> []] \<and>
   \<lfloor>resolve_concurrency sys cfg 0\<rfloor> =
     min (case cfg_concurrency cfg of None \<Rightarrow> defaultConcurrency sys
          | Some k \<Rightarrow> if k = 0 then defaultConcurrency sys else k) (minConcurrency sys) \<and>
   handler (exec acts (runBatch sys cfg [] beh)) = Ended"
  unfolding empty_batch_exec
  by (simp add: empty_batch_start resolve_concurrency_def Let_def)

theorem empty_batch_events_witness:
  "events (exec [Tick 0, Advance 0] (runBatch default_sys demo_config [] skip_job)) =
     [Log (Announce 2 0) Info, Complete \<lparr>total = 0, processed = 0, success = 0, failed = 0\<rparr> []]"
  using empty_batch_events [of "[Tick 0, Advance 0]" default_sys demo_config skip_job]
  by (simp add: default_sys_def demo_config_def)

theorem empty_batch_log_counterexample:
  "Log (Announce 2 0) Info \<in> set (events (runBatch default_sys demo_config [] skip_job))"
  by (simp add: empty_batch_start resolve_concurrency_def default_sys_def demo_config_def)

end
